theory Spec2Isabelle
  imports Complex_Main "HOL-Library.Multiset"
begin

section \<open>Data model\<close>

text \<open>
  Node identifiers are the hex strings of the store's object ids. Costs, distances and
  danger scores are Python floats in the source; they are modelled as exact reals, so
  every statement below is about the arithmetic of the algorithm, not about binary
  floating-point rounding.
\<close>

type_synonym node_id = string

text \<open>
  One document of the intersections collection: \<open>str(doc["_id"])\<close> and
  \<open>doc["location"]["coordinates"]\<close>.
\<close>

record intersection =
  iid :: node_id
  location_coordinates :: "real list"

text \<open>
  One document of the streets collection. The fields the source reads with
  \<open>.get(key, default)\<close> may be absent (\<open>None\<close>); \<open>danger_score\<close> is read
  with a default by the blender and without one by the snapshot builder.
\<close>

record street =
  sid :: string
  name :: string
  start_intersection_id :: node_id
  end_intersection_id :: node_id
  distance_m :: real
  danger_score :: "real option"
  bidirectional :: "bool option"
  is_accessible :: "bool option"

text \<open>The two collections, in the order in which \<open>find()\<close> yields their documents.\<close>

record store =
  intersections :: "intersection list"
  streets :: "street list"

text \<open>
  The exceptions of \<open>compute_route\<close>: the three \<open>ValueError\<close>s (origin or
  destination missing from the graph, no path) and the \<open>KeyError\<close> of a failed
  dictionary subscript.
\<close>

datatype error =
    NodeNotFound node_id
  | NoPathExists node_id node_id
  | KeyError string

type_synonym arc = "node_id \<times> real \<times> street"
type_synonym adjacency = "node_id \<rightharpoonup> arc list"
type_synonym coords = "node_id \<rightharpoonup> real list"

record route_result =
  path :: "node_id list"
  coordinates :: "real list list"
  total_cost :: real
  mode :: string
  ada_required :: bool
  hazards_bypassed :: nat

section \<open>Rounding\<close>

text \<open>
  Python's \<open>round(x, n)\<close>: to the nearest multiple of \<open>10 ^ (- n)\<close>, a tie going to
  the even neighbour.
\<close>

definition round_half_even :: "real \<Rightarrow> int" where
  "round_half_even y =
     (let f = \<lfloor>y\<rfloor>; d = y - of_int f
      in if d < 1 / 2 then f
         else if 1 / 2 < d then f + 1
         else if even f then f else f + 1)"

definition py_round :: "real \<Rightarrow> nat \<Rightarrow> real" where
  "py_round x ndigits = of_int (round_half_even (x * 10 ^ ndigits)) / 10 ^ ndigits"

section \<open>Graph snapshot builder (engines/dijkstra.py)\<close>

definition adj_get :: "adjacency \<Rightarrow> node_id \<Rightarrow> arc list" where
  "adj_get adj u = (case adj u of None \<Rightarrow> [] | Some arcs \<Rightarrow> arcs)"

text \<open>\<open>adj.setdefault(k, []).append(a)\<close>\<close>

definition adj_append :: "adjacency \<Rightarrow> node_id \<Rightarrow> arc \<Rightarrow> adjacency" where
  "adj_append adj k a = adj(k \<mapsto> adj_get adj k @ [a])"

text \<open>The first loop of \<open>build_adjacency_list\<close>, over the intersections.\<close>

fun add_intersections :: "intersection list \<Rightarrow> adjacency \<times> coords \<Rightarrow> adjacency \<times> coords" where
  "add_intersections [] ac = ac"
| "add_intersections (doc # docs) (adj, cs) =
     add_intersections docs
       (adj(iid doc \<mapsto> adj_get adj (iid doc)), cs(iid doc \<mapsto> location_coordinates doc))"

text \<open>
  The second loop, over the streets. With \<open>ada_required\<close>, a street whose
  \<open>is_accessible\<close> is false is counted and skipped. \<open>edge["danger_score"]\<close> raises
  \<open>KeyError\<close> when the field is absent.
\<close>

fun add_streets ::
  "string \<Rightarrow> bool \<Rightarrow> street list \<Rightarrow> adjacency \<times> nat \<Rightarrow> error + adjacency \<times> nat" where
  "add_streets md ada [] an = Inr an"
| "add_streets md ada (edge # edges) (adj, hb) =
     (if ada \<and> \<not> (case is_accessible edge of None \<Rightarrow> True | Some b \<Rightarrow> b)
      then add_streets md ada edges (adj, hb + 1)
      else
        (case (if md = ''safest'' then danger_score edge else Some (distance_m edge)) of
           None \<Rightarrow> Inl (KeyError ''danger_score'')
         | Some w \<Rightarrow>
            (let weight = max w (1 / 100);
                 start = start_intersection_id edge;
                 end = end_intersection_id edge;
                 adj1 = adj_append adj start (end, weight, edge);
                 adj2 = (if (case bidirectional edge of None \<Rightarrow> True | Some b \<Rightarrow> b)
                         then adj_append adj1 end (start, weight, edge) else adj1)
             in add_streets md ada edges (adj2, hb))))"

definition build_adjacency_list ::
  "string \<Rightarrow> bool \<Rightarrow> store \<Rightarrow> error + adjacency \<times> coords \<times> nat" where
  "build_adjacency_list md ada db =
     (case add_intersections (intersections db) (Map.empty, Map.empty) of
        (adj0, cs) \<Rightarrow>
          (case add_streets md ada (streets db) (adj0, 0) of
             Inl e \<Rightarrow> Inl e
           | Inr (adj, hb) \<Rightarrow> Inr (adj, cs, hb)))"

section \<open>The priority queue (heapq on \<open>_QueueItem\<close>)\<close>

text \<open>\<open>_QueueItem\<close> is ordered by \<open>cost\<close> alone; \<open>node_id\<close> is a payload.\<close>

record QueueItem =
  cost :: real
  node_id :: node_id

definition item_lt :: "QueueItem \<Rightarrow> QueueItem \<Rightarrow> bool" where
  "item_lt a b = (cost a < cost b)"

text \<open>
  \<open>heapq._siftdown(heap, startpos, pos)\<close>: the new item moves towards the root while
  it is smaller than its parent.
\<close>

function siftdown_loop :: "QueueItem list \<Rightarrow> nat \<Rightarrow> nat \<Rightarrow> QueueItem \<Rightarrow> QueueItem list" where
  "siftdown_loop heap startpos pos newitem =
     (if startpos < pos then
        (let parentpos = (pos - 1) div 2; parent = heap ! parentpos
         in if item_lt newitem parent
            then siftdown_loop (heap[pos := parent]) startpos parentpos newitem
            else heap[pos := newitem])
      else heap[pos := newitem])"
  by pat_completeness auto
termination
  by (relation "measure (\<lambda>(heap, startpos, pos, newitem). pos)") auto

declare siftdown_loop.simps [simp del]

definition siftdown :: "QueueItem list \<Rightarrow> nat \<Rightarrow> nat \<Rightarrow> QueueItem list" where
  "siftdown heap startpos pos = siftdown_loop heap startpos pos (heap ! pos)"

text \<open>
  \<open>heapq._siftup(heap, pos)\<close>: the smaller child moves up until a leaf is reached;
  the item is put there and sifted back down towards \<open>pos\<close>.
\<close>

function siftup_loop :: "QueueItem list \<Rightarrow> nat \<Rightarrow> nat \<Rightarrow> QueueItem list \<times> nat" where
  "siftup_loop heap pos childpos =
     (if childpos < length heap then
        (let rightpos = childpos + 1;
             c = (if rightpos < length heap \<and> \<not> item_lt (heap ! childpos) (heap ! rightpos)
                  then rightpos else childpos)
         in siftup_loop (heap[pos := heap ! c]) c (2 * c + 1))
      else (heap, pos))"
  by pat_completeness auto
termination
  by (relation "measure (\<lambda>(heap, pos, childpos). length heap - childpos)") (auto simp: Let_def)

declare siftup_loop.simps [simp del]

definition siftup :: "QueueItem list \<Rightarrow> nat \<Rightarrow> QueueItem list" where
  "siftup heap pos =
     (let newitem = heap ! pos
      in case siftup_loop heap pos (2 * pos + 1) of
           (heap1, pos1) \<Rightarrow> siftdown (heap1[pos1 := newitem]) pos pos1)"

definition heappush :: "QueueItem list \<Rightarrow> QueueItem \<Rightarrow> QueueItem list" where
  "heappush heap item = siftdown (heap @ [item]) 0 (length heap)"

text \<open>\<open>heappop\<close> on an empty heap raises \<open>IndexError\<close>: \<open>None\<close> here.\<close>

definition heappop :: "QueueItem list \<Rightarrow> (QueueItem \<times> QueueItem list) option" where
  "heappop heap =
     (if heap = [] then None
      else (let lastelt = last heap; rest = butlast heap
            in if rest \<noteq> [] then Some (rest ! 0, siftup (rest[0 := lastelt]) 0)
               else Some (lastelt, rest)))"

section \<open>The search (compute\_route)\<close>

type_synonym search_state = "(node_id \<rightharpoonup> real) \<times> (node_id \<rightharpoonup> node_id option) \<times> QueueItem list"

text \<open>
  The inner \<open>for\<close> loop: every arc out of \<open>u\<close> is relaxed, with a strict \<open><\<close>.
  \<open>dist[u]\<close> is a subscript and raises \<open>KeyError\<close> on a missing key.
\<close>

fun relax :: "node_id \<Rightarrow> arc list \<Rightarrow> search_state \<Rightarrow> error + search_state" where
  "relax u [] s = Inr s"
| "relax u ((neighbour, weight, e) # arcs) (dists, prev, pq) =
     (case dists u of
        None \<Rightarrow> Inl (KeyError u)
      | Some du \<Rightarrow>
          (let new_cost = du + weight
           in if (case dists neighbour of None \<Rightarrow> True | Some dn \<Rightarrow> new_cost < dn)
              then relax u arcs
                     (dists(neighbour \<mapsto> new_cost), prev(neighbour \<mapsto> Some u),
                      heappush pq \<lparr>cost = new_cost, node_id = neighbour\<rparr>)
              else relax u arcs (dists, prev, pq)))"

text \<open>
  The \<open>while pq\<close> loop. It leaves by \<open>break\<close> when the destination is popped, or when
  the queue is empty; a stale entry is skipped. The result is \<open>None\<close> when the loop
  does not end.
\<close>

partial_function (option) dijkstra_loop ::
  "adjacency \<Rightarrow> node_id \<Rightarrow> search_state \<Rightarrow> (error + search_state) option" where
  "dijkstra_loop adj destination s =
     (case s of (dists, prev, pq) \<Rightarrow>
        (case heappop pq of
           None \<Rightarrow> Some (Inr (dists, prev, pq))
         | Some (item, pq1) \<Rightarrow>
             (let u = node_id item
              in if u = destination then Some (Inr (dists, prev, pq1))
                 else if (case dists u of None \<Rightarrow> False | Some du \<Rightarrow> du < cost item)
                 then dijkstra_loop adj destination (dists, prev, pq1)
                 else (case relax u (adj_get adj u) (dists, prev, pq1) of
                         Inl e \<Rightarrow> Some (Inl e)
                       | Inr s1 \<Rightarrow> dijkstra_loop adj destination s1))))"

declare dijkstra_loop.simps [code]

text \<open>
  Path reconstruction: \<open>current = prev.get(current)\<close> until \<open>None\<close>; the list is in
  visiting order (destination first) and is reversed by the caller.
\<close>

partial_function (option) walk_back ::
  "(node_id \<rightharpoonup> node_id option) \<Rightarrow> node_id option \<Rightarrow> node_id list \<Rightarrow> node_id list option" where
  "walk_back prev current path_ids =
     (case current of
        None \<Rightarrow> Some path_ids
      | Some c \<Rightarrow>
          walk_back prev (case prev c of None \<Rightarrow> None | Some p \<Rightarrow> p) (path_ids @ [c]))"

declare walk_back.simps [code]

text \<open>\<open>[coords[nid] for nid in path_ids]\<close>\<close>

fun lookup_coords :: "coords \<Rightarrow> node_id list \<Rightarrow> error + real list list" where
  "lookup_coords cs [] = Inr []"
| "lookup_coords cs (nid # nids) =
     (case cs nid of
        None \<Rightarrow> Inl (KeyError nid)
      | Some c \<Rightarrow> (case lookup_coords cs nids of Inl e \<Rightarrow> Inl e | Inr rest \<Rightarrow> Inr (c # rest)))"

text \<open>
  The part of \<open>compute_route\<close> after the snapshot is built: membership checks, search,
  path reconstruction, coordinate lookup, and the result with its rounded cost.
\<close>

definition solve ::
  "adjacency \<Rightarrow> coords \<Rightarrow> nat \<Rightarrow> string \<Rightarrow> bool \<Rightarrow> node_id \<Rightarrow> node_id
     \<Rightarrow> (error + route_result) option" where
  "solve adj cs hb md ada origin destination =
     (if adj origin = None then Some (Inl (NodeNotFound origin))
      else if adj destination = None then Some (Inl (NodeNotFound destination))
      else
        (case dijkstra_loop adj destination
                ([origin \<mapsto> 0], [origin \<mapsto> None], [\<lparr>cost = 0, node_id = origin\<rparr>]) of
           None \<Rightarrow> None
         | Some (Inl e) \<Rightarrow> Some (Inl e)
         | Some (Inr (dists, prev, pq)) \<Rightarrow>
             (if prev destination = None then Some (Inl (NoPathExists origin destination))
              else
                (case walk_back prev (Some destination) [] of
                   None \<Rightarrow> None
                 | Some visited \<Rightarrow>
                     (let path_ids = rev visited
                      in case lookup_coords cs path_ids of
                           Inl e \<Rightarrow> Some (Inl e)
                         | Inr path_coords \<Rightarrow>
                             (case dists destination of
                                None \<Rightarrow> Some (Inl (KeyError destination))
                              | Some d \<Rightarrow>
                                  Some (Inr \<lparr>path = path_ids, coordinates = path_coords,
                                             total_cost = py_round d 4, mode = md,
                                             ada_required = ada, hazards_bypassed = hb\<rparr>)))))))"

definition compute_route ::
  "store \<Rightarrow> node_id \<Rightarrow> node_id \<Rightarrow> string \<Rightarrow> bool \<Rightarrow> (error + route_result) option" where
  "compute_route db origin destination md ada =
     (case build_adjacency_list md ada db of
        Inl e \<Rightarrow> Some (Inl e)
      | Inr (adj, cs, hb) \<Rightarrow> solve adj cs hb md ada origin destination)"

section \<open>Hazard weight blender (app/services/gemini.py)\<close>

text \<open>\<open>min(100.0, round(0.6 * old_score + 0.4 * severity, 2))\<close>\<close>

definition new_score :: "real \<Rightarrow> int \<Rightarrow> real" where
  "new_score old_score severity =
     min 100 (py_round (6 / 10 * old_score + 4 / 10 * of_int severity) 2)"

subsection \<open>The name query\<close>

text \<open>
  \<open>s_col.find({"name": {"$regex": street_name, "$options": "i"}})\<close> hands
  \<open>street_name\<close> to the store as a regular expression, as it is (nothing is escaped),
  and selects the documents in whose \<open>name\<close> the expression matches somewhere, letters
  compared without regard to case. Strings are strings of 8-bit characters here, and the
  letters with a case are those of ASCII.
\<close>

definition lower_char :: "char \<Rightarrow> char" where
  "lower_char c =
     (if (65::nat) \<le> of_char c \<and> of_char c \<le> (90::nat) then char_of (of_char c + (32::nat)) else c)"

text \<open>
  The expression language is the store's (Perl-compatible regular expressions), not this
  repository's. The part of it that is written out here: a literal character, \<open>.\<close>
  (any character but a line feed), alternatives \<open>|\<close>, groups \<open>( )\<close>, one of the
  quantifiers \<open>* + ?\<close> on a single item, and a backslash before a special character
  (the character itself).
\<close>

datatype regex =
    Never
  | Empty
  | Lit char
  | AnyChar
  | Or regex regex
  | Then regex regex
  | Many regex

text \<open>The expression matches the empty string.\<close>

fun nullable :: "regex \<Rightarrow> bool" where
  "nullable Never = False"
| "nullable Empty = True"
| "nullable (Lit a) = False"
| "nullable AnyChar = False"
| "nullable (Or r1 r2) = (nullable r1 \<or> nullable r2)"
| "nullable (Then r1 r2) = (nullable r1 \<and> nullable r2)"
| "nullable (Many r) = True"

text \<open>What is left to match once the character \<open>c\<close> has been read.\<close>

fun after_char :: "char \<Rightarrow> regex \<Rightarrow> regex" where
  "after_char c Never = Never"
| "after_char c Empty = Never"
| "after_char c (Lit a) = (if lower_char c = lower_char a then Empty else Never)"
| "after_char c AnyChar = (if c = CHR 0x0A then Never else Empty)"
| "after_char c (Or r1 r2) = Or (after_char c r1) (after_char c r2)"
| "after_char c (Then r1 r2) =
     (if nullable r1 then Or (Then (after_char c r1) r2) (after_char c r2)
      else Then (after_char c r1) r2)"
| "after_char c (Many r) = Then (after_char c r) (Many r)"

text \<open>The expression matches at the start of the string.\<close>

fun match_prefix :: "regex \<Rightarrow> string \<Rightarrow> bool" where
  "match_prefix r [] = nullable r"
| "match_prefix r (c # cs) = (nullable r \<or> match_prefix (after_char c r) cs)"

text \<open>The expression matches somewhere in the string: the unanchored search of \<open>$regex\<close>.\<close>

fun regex_search :: "regex \<Rightarrow> string \<Rightarrow> bool" where
  "regex_search r [] = nullable r"
| "regex_search r (c # cs) = (match_prefix r (c # cs) \<or> regex_search r cs)"

text \<open>The characters with a meaning of their own in a pattern, the backslash first.\<close>

definition regex_special :: "char list" where
  "regex_special =
     [CHR 0x5C, CHR ''^'', CHR ''$'', CHR ''.'', CHR ''['', CHR ''|'', CHR ''('', CHR '')'',
      CHR ''?'', CHR ''*'', CHR ''+'', CHR ''{'']"

text \<open>
  Reading a pattern, from left to right. A frame holds the finished alternatives of the
  group being read and the items of its current alternative, both latest first, and
  whether the latest item already carries a quantifier; \<open>outer\<close> holds the frames of
  the enclosing groups. Reading stops with \<open>Rejected\<close> at what the store refuses in
  every pattern (a closing parenthesis with no group open, a quantifier with nothing
  before it outside all groups; at the end, a pending backslash or an open group), and
  with \<open>Extended\<close> at the first construct outside the part written out here (a class
  \<open>[\<close>, a counted repetition \<open>{\<close>, an anchor \<open>^\<close> or \<open>$\<close>, a backslash before a
  character that is not special, a quantifier on a quantified item, and whatever follows
  the opening of a group or an alternative inside a group in the place of an item, which
  covers the \<open>(?\<close> and \<open>(*\<close> forms).
\<close>

datatype verdict = Rejected | Extended

type_synonym frame = "regex list \<times> regex list \<times> bool"

definition seq_of :: "regex list \<Rightarrow> regex" where
  "seq_of items = foldl (\<lambda>acc r. Then r acc) Empty items"

definition frame_regex :: "frame \<Rightarrow> regex" where
  "frame_regex f = (case f of (alts, items, q) \<Rightarrow> foldl (\<lambda>acc r. Or r acc) (seq_of items) alts)"

definition quantify :: "char \<Rightarrow> regex \<Rightarrow> regex" where
  "quantify c r =
     (if c = CHR ''*'' then Many r
      else if c = CHR ''+'' then Then r (Many r)
      else Or r Empty)"

fun parse_char ::
  "bool \<times> frame \<times> frame list \<Rightarrow> char \<Rightarrow> verdict + (bool \<times> frame \<times> frame list)" where
  "parse_char (esc, (alts, items, q), outer) c =
     (if esc then
        (if c \<in> set regex_special then Inr (False, (alts, Lit c # items, False), outer)
         else Inl Extended)
      else if c = CHR 0x5C then Inr (True, (alts, items, q), outer)
      else if c = CHR ''.'' then Inr (False, (alts, AnyChar # items, False), outer)
      else if c = CHR ''|'' then Inr (False, (seq_of items # alts, [], False), outer)
      else if c = CHR ''('' then Inr (False, ([], [], False), (alts, items, q) # outer)
      else if c = CHR '')'' then
        (case outer of
           [] \<Rightarrow> Inl Rejected
         | (alts', items', q') # outer' \<Rightarrow>
             Inr (False, (alts', frame_regex (alts, items, q) # items', False), outer'))
      else if c = CHR ''*'' \<or> c = CHR ''+'' \<or> c = CHR ''?'' then
        (case items of
           [] \<Rightarrow> (if outer = [] then Inl Rejected else Inl Extended)
         | r # items' \<Rightarrow>
             (if q then Inl Extended
              else Inr (False, (alts, quantify c r # items', True), outer)))
      else if c = CHR ''^'' \<or> c = CHR ''$'' \<or> c = CHR ''['' \<or> c = CHR ''{'' then Inl Extended
      else Inr (False, (alts, Lit c # items, False), outer))"

fun parse_from :: "bool \<times> frame \<times> frame list \<Rightarrow> string \<Rightarrow> verdict + regex" where
  "parse_from (esc, f, outer) [] =
     (if esc \<or> outer \<noteq> [] then Inl Rejected else Inr (frame_regex f))"
| "parse_from st (c # cs) =
     (case parse_char st c of
        Inl v \<Rightarrow> Inl v
      | Inr st' \<Rightarrow> parse_from st' cs)"

definition compile_pattern :: "string \<Rightarrow> verdict + regex" where
  "compile_pattern p = parse_from (False, ([], [], False), []) p"


subsection \<open>The update\<close>




text \<open>Repeated observations of one severity on one score.\<close>

fun blend_repeat :: "nat \<Rightarrow> int \<Rightarrow> real \<Rightarrow> real" where
  "blend_repeat 0 severity score = score"
| "blend_repeat (Suc n) severity score = new_score (blend_repeat n severity score) severity"

section \<open>Notions used to state the properties\<close>

text \<open>All arcs of a snapshot, each with its source node.\<close>

definition arcs_of :: "adjacency \<Rightarrow> (node_id \<times> node_id \<times> real \<times> street) set" where
  "arcs_of adj = {(u, v, w, e). (v, w, e) \<in> set (adj_get adj u)}"

text \<open>The streets the accessibility filter drops.\<close>

definition excluded :: "bool \<Rightarrow> street \<Rightarrow> bool" where
  "excluded ada edge = (ada \<and> \<not> (case is_accessible edge of None \<Rightarrow> True | Some b \<Rightarrow> b))"

text \<open>The arcs one street contributes when it is not dropped.\<close>

definition edge_arcs :: "string \<Rightarrow> street \<Rightarrow> (node_id \<times> node_id \<times> real \<times> street) set" where
  "edge_arcs md edge =
     (case (if md = ''safest'' then danger_score edge else Some (distance_m edge)) of
        None \<Rightarrow> {}
      | Some w \<Rightarrow>
          {(start_intersection_id edge, end_intersection_id edge, max w (1 / 100), edge)} \<union>
          (if (case bidirectional edge of None \<Rightarrow> True | Some b \<Rightarrow> b)
           then {(end_intersection_id edge, start_intersection_id edge, max w (1 / 100), edge)}
           else {}))"





subsection \<open>Regular expressions\<close>




definition literal_regex :: "string \<Rightarrow> regex" where
  "literal_regex p = foldr (\<lambda>c r. Then (Lit c) r) p Empty"


subsection \<open>The four-node scenario\<close>

definition scenario_street ::
  "string \<Rightarrow> node_id \<Rightarrow> node_id \<Rightarrow> real \<Rightarrow> real \<Rightarrow> bool \<Rightarrow> street" where
  "scenario_street n a b d g acc =
     \<lparr>sid = n, name = n, start_intersection_id = a, end_intersection_id = b,
      distance_m = d, danger_score = Some g, bidirectional = Some True,
      is_accessible = Some acc\<rparr>"

text \<open>
  Nodes A, B, C, D with arbitrary coordinates; streets A-B, A-C, B-D, C-D in this
  order. The flag is the accessibility of B-D.
\<close>

definition scenario_store ::
  "real list \<Rightarrow> real list \<Rightarrow> real list \<Rightarrow> real list \<Rightarrow> bool \<Rightarrow> store" where
  "scenario_store cA cB cC cD bd_accessible =
     \<lparr>intersections =
        [\<lparr>iid = ''A'', location_coordinates = cA\<rparr>, \<lparr>iid = ''B'', location_coordinates = cB\<rparr>,
         \<lparr>iid = ''C'', location_coordinates = cC\<rparr>, \<lparr>iid = ''D'', location_coordinates = cD\<rparr>],
      streets =
        [scenario_street ''A-B'' ''A'' ''B'' 280 5 True,
         scenario_street ''A-C'' ''A'' ''C'' 270 10 True,
         scenario_street ''B-D'' ''B'' ''D'' 270 15 bd_accessible,
         scenario_street ''C-D'' ''C'' ''D'' 280 8 True]\<rparr>"



subsection \<open>The heap invariant\<close>

text \<open>
  The list is a binary heap: no item is cheaper than its parent. The two weaker forms
  hold inside the sifting loops, at the position of the item being moved.
\<close>

definition heap_inv :: "QueueItem list \<Rightarrow> bool" where
  "heap_inv h = (\<forall>i. 0 < i \<and> i < length h \<longrightarrow> cost (h ! ((i - 1) div 2)) \<le> cost (h ! i))"

definition almost_heap :: "QueueItem list \<Rightarrow> nat \<Rightarrow> bool" where
  "almost_heap h pos =
     ((\<forall>i. 0 < i \<and> i < length h \<and> i \<noteq> pos \<longrightarrow> cost (h ! ((i - 1) div 2)) \<le> cost (h ! i))
      \<and> (\<forall>i. 0 < i \<and> i < length h \<and> (i - 1) div 2 = pos \<and> 0 < pos \<longrightarrow>
            cost (h ! ((pos - 1) div 2)) \<le> cost (h ! i)))"

definition hole_heap :: "QueueItem list \<Rightarrow> nat \<Rightarrow> bool" where
  "hole_heap h pos =
     ((\<forall>i. 0 < i \<and> i < length h \<and> i \<noteq> pos \<and> (i - 1) div 2 \<noteq> pos \<longrightarrow>
            cost (h ! ((i - 1) div 2)) \<le> cost (h ! i))
      \<and> (\<forall>i. 0 < i \<and> i < length h \<and> (i - 1) div 2 = pos \<and> 0 < pos \<longrightarrow>
            cost (h ! ((pos - 1) div 2)) \<le> cost (h ! i)))"

subsection \<open>Paths and their costs\<close>

text \<open>
  \<open>walk adj origin v c\<close>: some sequence of arcs of the snapshot leads from \<open>origin\<close> to
  \<open>v\<close> with cumulative weight \<open>c\<close>, the weights being added in path order without
  rounding.
\<close>

inductive walk :: "adjacency \<Rightarrow> node_id \<Rightarrow> node_id \<Rightarrow> real \<Rightarrow> bool" for adj origin where
  walk_start: "walk adj origin origin 0"
| walk_arc: "walk adj origin u c \<Longrightarrow> (v, w, e) \<in> set (adj_get adj u) \<Longrightarrow> walk adj origin v (c + w)"

text \<open>
  \<open>route adj p c\<close>: the node list \<open>p\<close> is a path of the snapshot, each consecutive pair
  joined by an arc, and \<open>c\<close> is the sum of the weights of the arcs taken.
\<close>

inductive route :: "adjacency \<Rightarrow> node_id list \<Rightarrow> real \<Rightarrow> bool" for adj where
  route_single: "route adj [u] 0"
| route_arc: "route adj (p @ [u]) c \<Longrightarrow> (v, w, e) \<in> set (adj_get adj u) \<Longrightarrow>
     route adj (p @ [u, v]) (c + w)"

definition positive_weights :: "adjacency \<Rightarrow> bool" where
  "positive_weights adj = (\<forall>u v w e. (v, w, e) \<in> set (adj_get adj u) \<longrightarrow> 0 < w)"

definition arc_targets :: "adjacency \<Rightarrow> node_id set" where
  "arc_targets adj = {v. \<exists>u w e. (v, w, e) \<in> set (adj_get adj u)}"

subsection \<open>Invariants of the search loop\<close>

text \<open>
  \<open>S\<close> is the set of nodes already expanded. The first invariant is what the path
  reconstruction needs; the second relates the queue to the nodes not yet expanded, with
  \<open>P\<close> the arcs of the node under expansion that are still to be relaxed.
\<close>

definition core_inv :: "adjacency \<Rightarrow> node_id \<Rightarrow> node_id set \<Rightarrow> search_state \<Rightarrow> bool" where
  "core_inv adj origin S s =
     (case s of (dists, prev, pq) \<Rightarrow>
        heap_inv pq \<and> dists origin = Some 0 \<and> prev origin = Some None
        \<and> (\<forall>v. (prev v = None) = (dists v = None))
        \<and> dom dists \<subseteq> insert origin (arc_targets adj)
        \<and> (\<forall>v d. dists v = Some d \<longrightarrow> walk adj origin v d)
        \<and> (\<forall>v d. dists v = Some d \<and> v \<noteq> origin \<longrightarrow>
              (\<exists>u du w e. prev v = Some (Some u) \<and> u \<in> S \<and> dists u = Some du
                 \<and> (v, w, e) \<in> set (adj_get adj u) \<and> d = du + w))
        \<and> (\<forall>it \<in> set pq. \<exists>d. dists (node_id it) = Some d \<and> d \<le> cost it)
        \<and> (\<forall>u \<in> S. \<exists>du. dists u = Some du \<and> (\<forall>c. walk adj origin u c \<longrightarrow> du \<le> c)))"

definition frontier_inv ::
  "adjacency \<Rightarrow> node_id \<Rightarrow> node_id set \<Rightarrow> (node_id \<times> arc) set \<Rightarrow> search_state \<Rightarrow> bool" where
  "frontier_inv adj destination S P s =
     (case s of (dists, prev, pq) \<Rightarrow>
        destination \<notin> S
        \<and> (\<forall>v d. dists v = Some d \<and> v \<notin> S \<longrightarrow> \<lparr>cost = d, node_id = v\<rparr> \<in> set pq)
        \<and> (\<forall>u \<in> S. \<forall>v w e. (v, w, e) \<in> set (adj_get adj u) \<and> (u, v, w, e) \<notin> P \<longrightarrow>
              (\<exists>du dv. dists u = Some du \<and> dists v = Some dv \<and> dv \<le> du + w)))"

text \<open>What holds of the state in which the search loop stops.\<close>

definition search_post :: "adjacency \<Rightarrow> node_id \<Rightarrow> node_id \<Rightarrow> search_state \<Rightarrow> bool" where
  "search_post adj origin destination s =
     (case s of (dists, prev, pq) \<Rightarrow>
        (\<exists>S. core_inv adj origin S s)
        \<and> (dists destination = None \<longrightarrow> (\<forall>c. \<not> walk adj origin destination c))
        \<and> (\<forall>d. dists destination = Some d \<longrightarrow> (\<forall>c. walk adj origin destination c \<longrightarrow> d \<le> c)))"

subsection \<open>Stores with a street endpoint that has no intersection document\<close>

text \<open>No intersections at all, one street A-B.\<close>

definition dangling_store :: store where
  "dangling_store =
     \<lparr>intersections = [], streets = [scenario_street ''A-B'' ''A'' ''B'' 280 5 True]\<rparr>"

text \<open>No intersections, two streets A-B and C-D that do not meet.\<close>

definition two_islands_store :: store where
  "two_islands_store =
     \<lparr>intersections = [],
      streets = [scenario_street ''A-B'' ''A'' ''B'' 280 5 True,
                 scenario_street ''C-D'' ''C'' ''D'' 280 8 True]\<rparr>"

text \<open>
  Intersections A and D; an inaccessible street A-D, and accessible streets A-X and X-D
  through an id X that has no intersection document.
\<close>

definition detour_store :: store where
  "detour_store =
     \<lparr>intersections =
        [\<lparr>iid = ''A'', location_coordinates = [0, 0]\<rparr>,
         \<lparr>iid = ''D'', location_coordinates = [1, 1]\<rparr>],
      streets = [scenario_street ''A-D'' ''A'' ''D'' 100 1 False,
                 scenario_street ''A-X'' ''A'' ''X'' 100 5 True,
                 scenario_street ''X-D'' ''X'' ''D'' 100 5 True]\<rparr>"

section \<open>Properties of the snapshot builder\<close>

lemma arcs_of_adj_append: "arcs_of (adj_append adj k a) = insert (k, a) (arcs_of adj)"
  by (auto simp: arcs_of_def adj_append_def adj_get_def split: option.splits if_splits)

lemma add_streets_arcs:
  "add_streets md ada es (adj, hb) = Inr (adj', hb') \<Longrightarrow>
     arcs_of adj' = arcs_of adj \<union> (\<Union>e \<in> set es. if excluded ada e then {} else edge_arcs md e)
     \<and> hb' = hb + length (filter (excluded ada) es)"
proof (induction es arbitrary: adj hb)
  case Nil
  then show ?case by simp
next
  case (Cons e es)
  show ?case
  proof (cases "excluded ada e")
    case True
    with Cons.prems have "add_streets md ada es (adj, hb + 1) = Inr (adj', hb')"
      by (simp add: excluded_def)
    from Cons.IH[OF this] True show ?thesis by simp
  next
    case False
    then obtain w where w: "(if md = ''safest'' then danger_score e else Some (distance_m e)) = Some w"
      using Cons.prems by (auto simp: excluded_def split: option.splits)
    define adj2 where "adj2 = (let weight = max w (1 / 100);
                 start = start_intersection_id e;
                 end = end_intersection_id e;
                 adj1 = adj_append adj start (end, weight, e)
             in (if (case bidirectional e of None \<Rightarrow> True | Some b \<Rightarrow> b)
                         then adj_append adj1 end (start, weight, e) else adj1))"
    have step: "add_streets md ada es (adj2, hb) = Inr (adj', hb')"
      using Cons.prems False w unfolding adj2_def
      by (auto simp: excluded_def Let_def split: if_splits option.splits)
    have a2: "arcs_of adj2 = arcs_of adj \<union> edge_arcs md e"
      unfolding adj2_def edge_arcs_def using w
      by (auto simp: Let_def arcs_of_adj_append)
    from Cons.IH[OF step] a2 False show ?thesis by auto
  qed
qed

lemma add_intersections_arcs:
  "add_intersections docs (adj, cs) = (adj', cs') \<Longrightarrow> arcs_of adj' = arcs_of adj"
proof (induction docs arbitrary: adj cs)
  case Nil
  then show ?case by simp
next
  case (Cons d ds)
  have "arcs_of (adj(iid d \<mapsto> adj_get adj (iid d))) = arcs_of adj"
    by (auto simp: arcs_of_def adj_get_def split: option.splits if_splits)
  moreover from Cons.prems have "add_intersections ds
       (adj(iid d \<mapsto> adj_get adj (iid d)), cs(iid d \<mapsto> location_coordinates d)) = (adj', cs')"
    by simp
  from Cons.IH[OF this] have "arcs_of adj' = arcs_of (adj(iid d \<mapsto> adj_get adj (iid d)))" .
  ultimately show ?case by simp
qed

lemma build_arcs:
  assumes "build_adjacency_list md ada db = Inr (adj, cs, hb)"
  shows "arcs_of adj = (\<Union>e \<in> set (streets db). if excluded ada e then {} else edge_arcs md e)"
    and "hb = length (filter (excluded ada) (streets db))"
proof -
  obtain adj0 cs0 where i: "add_intersections (intersections db) (Map.empty, Map.empty) = (adj0, cs0)"
    by (cases "add_intersections (intersections db) (Map.empty, Map.empty)") auto
  from assms i have s: "add_streets md ada (streets db) (adj0, 0) = Inr (adj, hb)"
    by (auto simp: build_adjacency_list_def split: sum.splits)
  have "arcs_of adj0 = {}"
    using add_intersections_arcs[OF i] by (simp add: arcs_of_def adj_get_def)
  with add_streets_arcs[OF s]
  show "arcs_of adj = (\<Union>e \<in> set (streets db). if excluded ada e then {} else edge_arcs md e)"
    and "hb = length (filter (excluded ada) (streets db))" by auto
qed

lemma edge_arcs_weight: "(u, v, w, e) \<in> edge_arcs md e' \<Longrightarrow> 1 / 100 \<le> w \<and> e = e'"
  by (auto simp: edge_arcs_def split: option.splits if_splits)

text \<open>
  C7. After the snapshot is built, in either mode and with or without the accessibility
  filter, every arc weight is at least the floor 0.01 and therefore strictly positive,
  whatever the street's \<open>danger_score\<close> or \<open>distance_m\<close> was (zero and negative values
  included).
\<close>

theorem arc_weights_positive:
  assumes "build_adjacency_list md ada db = Inr (adj, cs, hb)"
    and "(v, w, e) \<in> set (adj_get adj u)"
  shows "0 < w \<and> 1 / 100 \<le> w"
proof -
  from assms(2) have "(u, v, w, e) \<in> arcs_of adj" by (simp add: arcs_of_def)
  then obtain e' where "(u, v, w, e) \<in> edge_arcs md e'"
    unfolding build_arcs(1)[OF assms(1)] by (auto split: if_splits)
  from edge_arcs_weight[OF this] show ?thesis by simp
qed

theorem arc_weights_positive_witness:
  "build_adjacency_list ''safest'' False
     \<lparr>intersections = [], streets = [scenario_street ''A-B'' ''A'' ''B'' 0 (- 3) True]\<rparr> =
   Inr ([''A'' \<mapsto> [(''B'', 1 / 100, scenario_street ''A-B'' ''A'' ''B'' 0 (- 3) True)],
         ''B'' \<mapsto> [(''A'', 1 / 100, scenario_street ''A-B'' ''A'' ''B'' 0 (- 3) True)]],
        Map.empty, 0)
   \<and> (''B'', 1 / 100, scenario_street ''A-B'' ''A'' ''B'' 0 (- 3) True) \<in>
       set (adj_get [''A'' \<mapsto> [(''B'', 1 / 100, scenario_street ''A-B'' ''A'' ''B'' 0 (- 3) True)],
         ''B'' \<mapsto> [(''A'', 1 / 100, scenario_street ''A-B'' ''A'' ''B'' 0 (- 3) True)]] ''A'')
   \<and> (0::real) < 1 / 100 \<and> (1::real) / 100 \<le> 1 / 100"
proof -
  let ?e = "scenario_street ''A-B'' ''A'' ''B'' 0 (- 3) True"
  let ?adj = "[''A'' \<mapsto> [(''B'', 1 / 100, ?e)], ''B'' \<mapsto> [(''A'', 1 / 100, ?e)]]"
  have b: "build_adjacency_list ''safest'' False \<lparr>intersections = [], streets = [?e]\<rparr> =
             Inr (?adj, Map.empty, 0)"
    by (simp add: build_adjacency_list_def scenario_street_def adj_append_def adj_get_def Let_def)
  have m: "(''B'', 1 / 100, ?e) \<in> set (adj_get ?adj ''A'')"
    by (simp add: adj_get_def)
  from arc_weights_positive[OF b m] b m show ?thesis by simp
qed

section \<open>The scenarios\<close>

lemmas scenario_eval =
  compute_route_def build_adjacency_list_def scenario_store_def scenario_street_def
  adj_append_def adj_get_def solve_def dijkstra_loop.simps walk_back.simps heappop_def
  heappush_def siftup_def siftdown_def siftdown_loop.simps siftup_loop.simps Let_def item_lt_def
  py_round_def round_half_even_def

lemma solve_hazards_bypassed:
  "solve adj cs hb md ada origin destination = Some (Inr r) \<Longrightarrow> hazards_bypassed r = hb"
  by (auto simp: solve_def Let_def split: if_splits option.splits sum.splits prod.splits)

lemma excluded_True: "excluded True = (\<lambda>e. is_accessible e = Some False)"
  by (rule ext) (auto simp: excluded_def split: option.splits)

lemma excluded_False: "excluded False = (\<lambda>e. False)"
  by (rule ext) (simp add: excluded_def)

text \<open>
  C2. On the four-node scenario, with the filter off, the safest route from A to D is
  A, C, D with total cost 18, and the shortest route has total cost 550 along A, C, D:
  that path is discovered first (C is popped at 270, before B at 280), and the later
  relaxation of B-D, which reaches D at the equal cost 550, changes nothing, because a
  relaxation whose new cost equals the recorded cost leaves the distances, the
  predecessors and the queue as they are.
\<close>

theorem scenario_tie_break:
  "compute_route (scenario_store cA cB cC cD True) ''A'' ''D'' ''safest'' False =
     Some (Inr \<lparr>path = [''A'', ''C'', ''D''], coordinates = [cA, cC, cD], total_cost = 18,
                mode = ''safest'', ada_required = False, hazards_bypassed = 0\<rparr>)
   \<and> compute_route (scenario_store cA cB cC cD True) ''A'' ''D'' ''shortest'' False =
     Some (Inr \<lparr>path = [''A'', ''C'', ''D''], coordinates = [cA, cC, cD], total_cost = 550,
                mode = ''shortest'', ada_required = False, hazards_bypassed = 0\<rparr>)
   \<and> (dists u = Some du \<and> dists v = Some (du + w) \<longrightarrow>
        relax u ((v, w, e) # arcs) (dists, prev, pq) = relax u arcs (dists, prev, pq))"
proof (intro conjI)
  show "compute_route (scenario_store cA cB cC cD True) ''A'' ''D'' ''safest'' False =
     Some (Inr \<lparr>path = [''A'', ''C'', ''D''], coordinates = [cA, cC, cD], total_cost = 18,
                mode = ''safest'', ada_required = False, hazards_bypassed = 0\<rparr>)"
    by (simp add: scenario_eval)
  show "compute_route (scenario_store cA cB cC cD True) ''A'' ''D'' ''shortest'' False =
     Some (Inr \<lparr>path = [''A'', ''C'', ''D''], coordinates = [cA, cC, cD], total_cost = 550,
                mode = ''shortest'', ada_required = False, hazards_bypassed = 0\<rparr>)"
    by (simp add: scenario_eval)
  show "dists u = Some du \<and> dists v = Some (du + w) \<longrightarrow>
        relax u ((v, w, e) # arcs) (dists, prev, pq) = relax u arcs (dists, prev, pq)"
    by simp
qed

theorem scenario_tie_break_witness:
  "relax ''B'' [(''D'', 270, scenario_street ''B-D'' ''B'' ''D'' 270 15 True)]
     ([''A'' \<mapsto> 0, ''B'' \<mapsto> 280, ''C'' \<mapsto> 270, ''D'' \<mapsto> 550],
      [''A'' \<mapsto> None, ''B'' \<mapsto> Some ''A'', ''C'' \<mapsto> Some ''A'', ''D'' \<mapsto> Some ''C''],
      [\<lparr>cost = 550, node_id = ''D''\<rparr>]) =
   Inr ([''A'' \<mapsto> 0, ''B'' \<mapsto> 280, ''C'' \<mapsto> 270, ''D'' \<mapsto> 550],
      [''A'' \<mapsto> None, ''B'' \<mapsto> Some ''A'', ''C'' \<mapsto> Some ''A'', ''D'' \<mapsto> Some ''C''],
      [\<lparr>cost = 550, node_id = ''D''\<rparr>])
   \<and> compute_route (scenario_store [] [] [] [] True) ''A'' ''D'' ''shortest'' False =
     Some (Inr \<lparr>path = [''A'', ''C'', ''D''], coordinates = [[], [], []], total_cost = 550,
                mode = ''shortest'', ada_required = False, hazards_bypassed = 0\<rparr>)"
proof -
  let ?d = "[''A'' \<mapsto> 0, ''B'' \<mapsto> 280, ''C'' \<mapsto> 270, ''D'' \<mapsto> (550::real)]"
  have h: "?d ''B'' = Some 280 \<and> ?d ''D'' = Some (280 + 270)" by simp
  from scenario_tie_break[of "[]" "[]" "[]" "[]" ?d "''B''" 280 "''D''" 270
      "scenario_street ''B-D'' ''B'' ''D'' 270 15 True" "[]"
      "[''A'' \<mapsto> None, ''B'' \<mapsto> Some ''A'', ''C'' \<mapsto> Some ''A'', ''D'' \<mapsto> Some ''C'']"
      "[\<lparr>cost = 550, node_id = ''D''\<rparr>]"] h
  show ?thesis by simp
qed

text \<open>
  C5. With the accessibility filter on, a street whose \<open>is_accessible\<close> flag is false
  is the street of no arc of the snapshot, and the exclusion counter is exactly the
  number of such streets; the \<open>hazards_bypassed\<close> of any result is at most that
  number. On the four-node scenario with B-D inaccessible, the safest route from A to D
  with the filter on is A, C, D with total cost 18 and \<open>hazards_bypassed = 1\<close>.
\<close>

theorem ada_filter_excludes:
  "(build_adjacency_list md True db = Inr (adj, cs, hb) \<longrightarrow>
       (\<forall>e \<in> set (streets db). is_accessible e = Some False \<longrightarrow>
          (\<forall>u v w. (v, w, e) \<notin> set (adj_get adj u)))
       \<and> hb = length (filter (\<lambda>e. is_accessible e = Some False) (streets db)))
   \<and> (compute_route db origin destination md ada = Some (Inr r) \<longrightarrow>
        hazards_bypassed r \<le> length (filter (\<lambda>e. is_accessible e = Some False) (streets db)))
   \<and> compute_route (scenario_store cA cB cC cD False) ''A'' ''D'' ''safest'' True =
       Some (Inr \<lparr>path = [''A'', ''C'', ''D''], coordinates = [cA, cC, cD], total_cost = 18,
                  mode = ''safest'', ada_required = True, hazards_bypassed = 1\<rparr>)"
proof (intro conjI impI ballI allI)
  assume b: "build_adjacency_list md True db = Inr (adj, cs, hb)"
  from build_arcs(2)[OF b]
  show "hb = length (filter (\<lambda>e. is_accessible e = Some False) (streets db))"
    by (simp add: excluded_True)
  fix e u v w
  assume e: "e \<in> set (streets db)" and acc: "is_accessible e = Some False"
  show "(v, w, e) \<notin> set (adj_get adj u)"
  proof
    assume "(v, w, e) \<in> set (adj_get adj u)"
    then have "(u, v, w, e) \<in> arcs_of adj" by (simp add: arcs_of_def)
    then obtain e' where e': "\<not> excluded True e'" "(u, v, w, e) \<in> edge_arcs md e'"
      unfolding build_arcs(1)[OF b] by (auto split: if_splits)
    from edge_arcs_weight[OF e'(2)] have "e = e'" by simp
    with e'(1) acc show False by (simp add: excluded_True)
  qed
next
  assume c: "compute_route db origin destination md ada = Some (Inr r)"
  then obtain adj cs hb where b: "build_adjacency_list md ada db = Inr (adj, cs, hb)"
    and s: "solve adj cs hb md ada origin destination = Some (Inr r)"
    by (auto simp: compute_route_def split: sum.splits)
  have "hb = length (filter (excluded ada) (streets db))" by (rule build_arcs(2)[OF b])
  also have "\<dots> \<le> length (filter (\<lambda>e. is_accessible e = Some False) (streets db))"
    by (cases ada) (simp_all add: excluded_True excluded_False)
  finally show "hazards_bypassed r \<le> length (filter (\<lambda>e. is_accessible e = Some False) (streets db))"
    using solve_hazards_bypassed[OF s] by simp
next
  show "compute_route (scenario_store cA cB cC cD False) ''A'' ''D'' ''safest'' True =
       Some (Inr \<lparr>path = [''A'', ''C'', ''D''], coordinates = [cA, cC, cD], total_cost = 18,
                  mode = ''safest'', ada_required = True, hazards_bypassed = 1\<rparr>)"
    by (simp add: scenario_eval)
qed

theorem ada_filter_excludes_witness:
  "(''D'', 15, scenario_street ''B-D'' ''B'' ''D'' 270 15 False) \<notin>
      set (adj_get (fst (projr (build_adjacency_list ''safest'' True (scenario_store [] [] [] [] False)))) ''B'')
   \<and> snd (snd (projr (build_adjacency_list ''safest'' True (scenario_store [] [] [] [] False)))) = 1
   \<and> hazards_bypassed \<lparr>path = [''A'', ''C'', ''D''], coordinates = [[], [], []], total_cost = 18,
                  mode = ''safest'', ada_required = True, hazards_bypassed = 1\<rparr> \<le> 1"
proof -
  let ?S = "scenario_store [] [] [] [] False"
  let ?B = "build_adjacency_list ''safest'' True ?S"
  let ?e = "scenario_street ''B-D'' ''B'' ''D'' 270 15 False"
  have isr: "\<exists>x. ?B = Inr x"
    by (simp add: build_adjacency_list_def scenario_store_def scenario_street_def Let_def)
  then have b: "?B = Inr (fst (projr ?B), fst (snd (projr ?B)), snd (snd (projr ?B)))"
    by auto
  have e: "?e \<in> set (streets ?S)" "is_accessible ?e = Some False"
    by (simp_all add: scenario_store_def scenario_street_def)
  have n: "length (filter (\<lambda>e. is_accessible e = Some False) (streets ?S)) = 1"
    by (simp add: scenario_store_def scenario_street_def)
  note t = ada_filter_excludes[of "''safest''" ?S "fst (projr ?B)" "fst (snd (projr ?B))"
      "snd (snd (projr ?B))" "''A''" "''D''" True _ "[]" "[]" "[]" "[]"]
  from t b e n show ?thesis by auto
qed

section \<open>Properties of the blender\<close>

lemma round_half_even_of_int: "round_half_even (of_int n) = n"
  by (simp add: round_half_even_def)

lemma round_half_even_mono: "x \<le> y \<Longrightarrow> round_half_even x \<le> round_half_even y"
proof -
  assume xy: "x \<le> y"
  have fl: "\<lfloor>x\<rfloor> \<le> \<lfloor>y\<rfloor>" using xy by (rule floor_mono)
  have lo: "\<lfloor>z\<rfloor> \<le> round_half_even z" and hi: "round_half_even z \<le> \<lfloor>z\<rfloor> + 1" for z
    by (simp_all add: round_half_even_def Let_def)
  show ?thesis
  proof (cases "\<lfloor>x\<rfloor> < \<lfloor>y\<rfloor>")
    case True
    then have "round_half_even x \<le> \<lfloor>y\<rfloor>" using hi[of x] by linarith
    with lo[of y] show ?thesis by linarith
  next
    case False
    with fl have eq: "\<lfloor>x\<rfloor> = \<lfloor>y\<rfloor>" by simp
    then have "x - of_int \<lfloor>x\<rfloor> \<le> y - of_int \<lfloor>y\<rfloor>" using xy by simp
    then show ?thesis using eq by (auto simp: round_half_even_def Let_def)
  qed
qed

lemma py_round_mono: "x \<le> y \<Longrightarrow> py_round x n \<le> py_round y n"
  unfolding py_round_def
  by (intro divide_right_mono) (auto intro!: round_half_even_mono mult_right_mono)

lemma py_round_grid: "py_round (of_int k / 10 ^ n) n = of_int k / 10 ^ n"
  by (simp add: py_round_def round_half_even_of_int)

lemma py_round_int: "py_round (of_int k) n = of_int k"
proof -
  have "of_int k * 10 ^ n = (of_int (k * 10 ^ n) :: real)" by simp
  then have "round_half_even (of_int k * 10 ^ n) = k * 10 ^ n"
    by (simp only: round_half_even_of_int)
  then show ?thesis by (simp add: py_round_def)
qed


lemma py_round_0: "py_round 0 n = 0"
  using py_round_int[of 0 n] by simp


subsection \<open>The name query\<close>















text \<open>How patterns are read, and what they select.\<close>

lemma compile_pattern_examples:
  "compile_pattern ''Oak|Elm'' = Inr (Or (literal_regex ''Oak'') (literal_regex ''Elm''))"
  "compile_pattern ''ab*'' = Inr (Then (Lit CHR ''a'') (Then (Many (Lit CHR ''b'')) Empty))"
  "compile_pattern ''ab+'' =
     Inr (Then (Lit CHR ''a'') (Then (Then (Lit CHR ''b'') (Many (Lit CHR ''b''))) Empty))"
  "compile_pattern ''ab?'' = Inr (Then (Lit CHR ''a'') (Then (Or (Lit CHR ''b'') Empty) Empty))"
  "compile_pattern ''(a|b)c'' =
     Inr (Then (Or (Then (Lit CHR ''a'') Empty) (Then (Lit CHR ''b'') Empty))
            (Then (Lit CHR ''c'') Empty))"
  "compile_pattern [CHR ''a'', CHR 0x5C, CHR ''.''] = Inr (literal_regex ''a.'')"
  "compile_pattern ''a)'' = Inl Rejected"
  "compile_pattern ''*a'' = Inl Rejected"
  "compile_pattern ''a|+'' = Inl Rejected"
  "compile_pattern ''(a'' = Inl Rejected"
  "compile_pattern [CHR ''a'', CHR 0x5C] = Inl Rejected"
  "compile_pattern ''[ab]'' = Inl Extended"
  "compile_pattern ''a{2}'' = Inl Extended"
  "compile_pattern ''^a'' = Inl Extended"
  "compile_pattern ''a$'' = Inl Extended"
  "compile_pattern ''a*?'' = Inl Extended"
  "compile_pattern ''(?i)a'' = Inl Extended"
  "compile_pattern [CHR 0x5C, CHR ''d''] = Inl Extended"
  by code_simp+

lemma regex_search_examples:
  "regex_search (Or (literal_regex ''Oak'') (literal_regex ''Elm'')) ''12 ELM STREET''"
  "\<not> regex_search (Or (literal_regex ''Oak'') (literal_regex ''Elm'')) ''Pine St''"
  "regex_search (Then (Lit CHR ''a'') (Then (Many (Lit CHR ''b'')) (Lit CHR ''c''))) ''xxabbbc''"
  "regex_search (Then (Lit CHR ''a'') (Then (Many (Lit CHR ''b'')) (Lit CHR ''c''))) ''AC''"
  "\<not> regex_search (Then (Lit CHR ''a'') (Then (Many (Lit CHR ''b'')) (Lit CHR ''c''))) ''abdc''"
  "regex_search (Then (Lit CHR ''a'') (Then AnyChar (Lit CHR ''c''))) ''a-c''"
  "\<not> regex_search (Then (Lit CHR ''a'') (Then AnyChar (Lit CHR ''c''))) [CHR ''a'', CHR 0x0A, CHR ''c'']"
  by code_simp+

subsection \<open>The update\<close>









lemma new_score_grid: "\<exists>k::int. new_score old s = of_int k / 100"
proof -
  obtain k :: int where k: "py_round (6 / 10 * old + 4 / 10 * of_int s) 2 = of_int k / 100"
    by (auto simp: py_round_def)
  show ?thesis
  proof (cases "py_round (6 / 10 * old + 4 / 10 * of_int s) 2 \<le> 100")
    case True
    with k show ?thesis by (auto simp: new_score_def min_def)
  next
    case False
    then have "new_score old s = of_int 10000 / 100" by (simp add: new_score_def min_def)
    then show ?thesis by blast
  qed
qed

lemma new_score_le_severity:
  assumes "old \<le> of_int s" "s \<le> 100"
  shows "new_score old s \<le> of_int s"
proof -
  have "6 / 10 * old + 4 / 10 * of_int s \<le> of_int s" using assms(1) by simp
  from py_round_mono[OF this, of 2] have "py_round (6 / 10 * old + 4 / 10 * of_int s) 2 \<le> of_int s"
    by (simp add: py_round_int)
  then show ?thesis by (simp add: new_score_def)
qed

lemma new_score_ge_severity:
  assumes "of_int s \<le> old" "s \<le> 100"
  shows "of_int s \<le> new_score old s"
proof -
  have "of_int s \<le> 6 / 10 * old + 4 / 10 * of_int s" using assms(1) by simp
  from py_round_mono[OF this, of 2] have "of_int s \<le> py_round (6 / 10 * old + 4 / 10 * of_int s) 2"
    by (simp add: py_round_int)
  moreover have "(of_int s :: real) \<le> 100" using assms(2) by simp
  ultimately show ?thesis by (simp add: new_score_def)
qed

lemma py_round_grid2: "old = of_int k / 100 \<Longrightarrow> py_round old 2 = old"
proof -
  assume o: "old = of_int k / 100"
  have "py_round (of_int k / 10 ^ 2) 2 = of_int k / 10 ^ 2" by (rule py_round_grid)
  moreover have "(10::real) ^ 2 = 100" by simp
  ultimately show ?thesis unfolding o by (simp only:)
qed

lemma new_score_ge_old:
  assumes "old = of_int k / 100" "old \<le> of_int s"
  shows "old \<le> new_score old s \<or> 100 \<le> new_score old s"
proof -
  define r where "r = py_round (6 / 10 * old + 4 / 10 * of_int s) 2"
  have ns: "new_score old s = min 100 r" by (simp add: new_score_def r_def)
  have "old \<le> 6 / 10 * old + 4 / 10 * of_int s" using assms(2) by simp
  from py_round_mono[OF this, of 2] have "py_round old 2 \<le> r" by (simp only: r_def)
  then have "old \<le> r" by (simp only: py_round_grid2[OF assms(1)])
  then show ?thesis unfolding ns by (auto simp: min_def)
qed

lemma new_score_le_old:
  assumes "old = of_int k / 100" "of_int s \<le> old"
  shows "new_score old s \<le> old"
proof -
  define r where "r = py_round (6 / 10 * old + 4 / 10 * of_int s) 2"
  have ns: "new_score old s = min 100 r" by (simp add: new_score_def r_def)
  have "6 / 10 * old + 4 / 10 * of_int s \<le> old" using assms(2) by simp
  from py_round_mono[OF this, of 2] have "r \<le> py_round old 2" by (simp only: r_def)
  then have "r \<le> old" by (simp only: py_round_grid2[OF assms(1)])
  then show ?thesis unfolding ns by (auto simp: min_def)
qed

lemma new_score_range:
  assumes "0 \<le> old" "0 \<le> s"
  shows "0 \<le> new_score old s \<and> new_score old s \<le> 100"
proof -
  have "0 \<le> 6 / 10 * old + 4 / 10 * of_int s" using assms by simp
  from py_round_mono[OF this, of 2] have "0 \<le> py_round (6 / 10 * old + 4 / 10 * of_int s) 2"
    by (simp add: py_round_0)
  then show ?thesis by (simp add: new_score_def)
qed

lemma blend_repeat_range:
  assumes "0 \<le> old" "old \<le> 100" "0 \<le> s"
  shows "0 \<le> blend_repeat n s old \<and> blend_repeat n s old \<le> 100"
proof (induction n)
  case 0
  with assms show ?case by simp
next
  case (Suc n)
  then show ?case using new_score_range[of "blend_repeat n s old" s] assms(3) by simp
qed

lemma blend_repeat_below:
  assumes "old \<le> of_int s" "s \<le> 100"
  shows "blend_repeat n s old \<le> of_int s"
  by (induction n) (use assms new_score_le_severity in auto)

lemma blend_repeat_above:
  assumes "of_int s \<le> old" "s \<le> 100"
  shows "of_int s \<le> blend_repeat n s old"
  by (induction n) (use assms new_score_ge_severity in auto)

lemma blend_repeat_grid:
  "(\<exists>k::int. old = of_int k / 100) \<or> 0 < n \<Longrightarrow> \<exists>k::int. blend_repeat n s old = of_int k / 100"
proof (cases n)
  case 0
  assume "(\<exists>k::int. old = of_int k / 100) \<or> 0 < n"
  with 0 show ?thesis by simp
next
  case (Suc m)
  then show ?thesis using new_score_grid[of "blend_repeat m s old" s] by simp
qed

lemma blend_repeat_step_up:
  assumes "old \<le> of_int s" "s \<le> 100" "\<exists>k::int. blend_repeat n s old = of_int k / 100"
  shows "blend_repeat n s old \<le> blend_repeat (Suc n) s old"
proof -
  from assms(3) obtain k :: int where k: "blend_repeat n s old = of_int k / 100" by blast
  have b: "blend_repeat n s old \<le> of_int s" by (rule blend_repeat_below[OF assms(1,2)])
  have "(of_int s :: real) \<le> 100" using assms(2) by simp
  with b have "blend_repeat n s old \<le> 100" by linarith
  with new_score_ge_old[OF k b] show ?thesis by auto
qed

lemma blend_repeat_step_down:
  assumes "of_int s \<le> old" "s \<le> 100" "\<exists>k::int. blend_repeat n s old = of_int k / 100"
  shows "blend_repeat (Suc n) s old \<le> blend_repeat n s old"
proof -
  from assms(3) obtain k :: int where k: "blend_repeat n s old = of_int k / 100" by blast
  have b: "of_int s \<le> blend_repeat n s old" by (rule blend_repeat_above[OF assms(1,2)])
  from new_score_le_old[OF k b] show ?thesis by simp
qed

text \<open>
  C8 (amended). For a starting score in \<open>[0, 100]\<close> and a severity \<open>s\<close> in
  \<open>[1, 100]\<close>, every score of the repeated blend stays in \<open>[0, 100]\<close> and on the
  starting score's side of \<open>s\<close> (no overshoot); from the first blended score on the
  scores move monotonically towards \<open>s\<close>; and when the starting score is a multiple of
  0.01 (as every score the blender writes is), the first step is monotone as well.
\<close>

theorem blend_repeat_monotone:
  assumes "0 \<le> old" "old \<le> 100" "1 \<le> s" "s \<le> 100"
  shows "0 \<le> blend_repeat n s old \<and> blend_repeat n s old \<le> 100
     \<and> (old \<le> of_int s \<longrightarrow>
          blend_repeat n s old \<le> of_int s
          \<and> blend_repeat (Suc n) s old \<le> blend_repeat (Suc (Suc n)) s old)
     \<and> (of_int s \<le> old \<longrightarrow>
          of_int s \<le> blend_repeat n s old
          \<and> blend_repeat (Suc (Suc n)) s old \<le> blend_repeat (Suc n) s old)
     \<and> ((\<exists>k::int. old = of_int k / 100) \<longrightarrow>
          (old \<le> of_int s \<longrightarrow> blend_repeat n s old \<le> blend_repeat (Suc n) s old)
          \<and> (of_int s \<le> old \<longrightarrow> blend_repeat (Suc n) s old \<le> blend_repeat n s old))"
proof -
  have s0: "0 \<le> s" using assms(3) by simp
  have g1: "\<exists>k::int. blend_repeat (Suc n) s old = of_int k / 100"
    by (rule blend_repeat_grid) simp
  have g0: "\<exists>k::int. blend_repeat n s old = of_int k / 100" if "\<exists>k::int. old = of_int k / 100"
    by (rule blend_repeat_grid) (use that in simp)
  show ?thesis
    using blend_repeat_range[OF assms(1,2) s0, of n]
      blend_repeat_below[OF _ assms(4), of old n]
      blend_repeat_above[OF _ assms(4), of old n]
      blend_repeat_step_up[OF _ assms(4) g1]
      blend_repeat_step_down[OF _ assms(4) g1]
      blend_repeat_step_up[OF _ assms(4) g0]
      blend_repeat_step_down[OF _ assms(4) g0]
    by blast
qed

theorem blend_repeat_monotone_witness:
  "blend_repeat 0 90 45 = 45 \<and> blend_repeat 1 90 45 = 63 \<and> blend_repeat 2 90 45 = 369 / 5
   \<and> (45::real) \<le> blend_repeat 1 90 45 \<and> blend_repeat 1 90 45 \<le> blend_repeat 2 90 45
   \<and> blend_repeat 1 90 45 \<le> 90 \<and> 0 \<le> blend_repeat 1 90 45 \<and> blend_repeat 1 90 45 \<le> 100"
proof -
  have h: "(0::real) \<le> 45" "(45::real) \<le> 100" "(1::int) \<le> 90" "(90::int) \<le> 100" by simp_all
  have g: "\<exists>k::int. (45::real) = of_int k / 100" by (rule exI[of _ 4500]) simp
  have le: "(45::real) \<le> of_int 90" by simp
  have e: "blend_repeat 0 90 45 = 45" "blend_repeat 1 90 45 = 63" "blend_repeat 2 90 45 = 369 / 5"
    by (simp_all add: numeral_2_eq_2 new_score_def py_round_def round_half_even_def Let_def)
  from blend_repeat_monotone[OF h, of 0] blend_repeat_monotone[OF h, of 1] g le e
  show ?thesis by simp
qed

text \<open>
  C8 as stated fails for a starting score that is not a multiple of 0.01: from 0.9912,
  below the severity 1, the blend 0.99472 is rounded to 0.99, below the starting score.
\<close>

theorem blend_off_grid_counterexample:
  "(0::real) \<le> 1239 / 1250 \<and> (1239::real) / 1250 \<le> 100 \<and> (1239::real) / 1250 < of_int 1
   \<and> blend_repeat 1 1 (1239 / 1250) = 99 / 100
   \<and> blend_repeat 1 1 (1239 / 1250) < blend_repeat 0 1 (1239 / 1250)"
  by (simp add: new_score_def py_round_def round_half_even_def Let_def)

section \<open>Properties of the priority queue\<close>

lemma parent_less: "0 < k \<Longrightarrow> (k - 1) div 2 < (k::nat)"
  by (metis One_nat_def Suc_pred div_le_dividend le_imp_less_Suc)

lemma length_siftdown_loop [simp]: "length (siftdown_loop h sp pos x) = length h"
  by (induction h sp pos x rule: siftdown_loop.induct)
     (subst siftdown_loop.simps, simp add: Let_def)

lemma mset_siftdown_loop:
  "pos < length h \<Longrightarrow> mset (siftdown_loop h sp pos x) = mset (h[pos := x])"
proof (induction h sp pos x rule: siftdown_loop.induct)
  case (1 heap startpos pos newitem)
  show ?case
  proof (cases "startpos < pos \<and> item_lt newitem (heap ! ((pos - 1) div 2))")
    case True
    let ?pp = "(pos - 1) div 2"
    have pp: "?pp < pos" "?pp < length heap" using True "1.prems" by auto
    have "mset (siftdown_loop heap startpos pos newitem) =
          mset (siftdown_loop (heap[pos := heap ! ?pp]) startpos ?pp newitem)"
      using True by (subst siftdown_loop.simps) (simp add: Let_def)
    also have "\<dots> = mset (heap[pos := heap ! ?pp, ?pp := newitem])"
      using "1.IH"[OF _ refl refl] True pp by simp
    also have "\<dots> = mset (heap[pos := newitem])"
    proof -
      let ?ls = "heap[pos := newitem]"
      have "mset (?ls[pos := ?ls ! ?pp, ?pp := ?ls ! pos]) = mset ?ls"
        by (rule mset_swap) (use pp "1.prems" in auto)
      then show ?thesis using pp "1.prems" by simp
    qed
    finally show ?thesis .
  next
    case False
    then show ?thesis by (subst siftdown_loop.simps) (auto simp: Let_def)
  qed
qed

lemma heap_inv_siftdown_loop:
  "pos < length h \<Longrightarrow> almost_heap (h[pos := x]) pos \<Longrightarrow> heap_inv (siftdown_loop h 0 pos x)"
proof (induction h "0::nat" pos x rule: siftdown_loop.induct)
  case (1 heap pos newitem)
  let ?pp = "(pos - 1) div 2"
  let ?h' = "heap[pos := newitem]"
  note alm = "1.prems"(2)[unfolded almost_heap_def]
  show ?case
  proof (cases "0 < pos")
    case False
    then have "siftdown_loop heap 0 pos newitem = ?h'" by (subst siftdown_loop.simps) simp
    moreover have "heap_inv ?h'" using alm False by (auto simp: heap_inv_def)
    ultimately show ?thesis by simp
  next
    case pos: True
    then have pp: "?pp < pos" "?pp < length heap" using "1.prems" by auto
    show ?thesis
    proof (cases "item_lt newitem (heap ! ?pp)")
      case False
      then have "siftdown_loop heap 0 pos newitem = ?h'"
        using pos by (subst siftdown_loop.simps) (simp add: Let_def)
      moreover have "heap_inv ?h'"
        unfolding heap_inv_def
      proof (intro allI impI)
        fix i assume i: "0 < i \<and> i < length ?h'"
        show "cost (?h' ! ((i - 1) div 2)) \<le> cost (?h' ! i)"
        proof (cases "i = pos")
          case True
          then show ?thesis using False pp "1.prems" by (simp add: item_lt_def)
        next
          case False
          then show ?thesis using alm i by blast
        qed
      qed
      ultimately show ?thesis by simp
    next
      case True
      let ?h1 = "heap[pos := heap ! ?pp]"
      have eq: "siftdown_loop heap 0 pos newitem = siftdown_loop ?h1 0 ?pp newitem"
        using pos True by (subst siftdown_loop.simps) (simp add: Let_def)
      have lt: "cost newitem < cost (heap ! ?pp)" using True by (simp add: item_lt_def)
      have "almost_heap (?h1[?pp := newitem]) ?pp"
        unfolding almost_heap_def
      proof (intro conjI allI impI)
        fix i assume i: "0 < i \<and> i < length (?h1[?pp := newitem]) \<and> i \<noteq> ?pp"
        let ?pi = "(i - 1) div 2"
        have pi: "?pi < i" using i by auto
        show "cost (?h1[?pp := newitem] ! ?pi) \<le> cost (?h1[?pp := newitem] ! i)"
        proof (cases "i = pos")
          case True
          then show ?thesis using pp lt "1.prems" by simp
        next
          case ip: False
          then have ii: "?h1[?pp := newitem] ! i = ?h' ! i" using i by simp
          have a: "cost (?h' ! ?pi) \<le> cost (?h' ! i)" using alm i ip by simp
          show ?thesis
          proof (cases "?pi = ?pp")
            case True
            have "cost (?h' ! ?pp) = cost (heap ! ?pp)" using pp by simp
            with a True lt ii pp show ?thesis by simp
          next
            case npp: False
            show ?thesis
            proof (cases "?pi = pos")
              case True
              have "0 < i \<and> i < length ?h' \<and> (i - 1) div 2 = pos \<and> 0 < pos" using i True pos by simp
              with alm have "cost (?h' ! ?pp) \<le> cost (?h' ! i)" by blast
              then show ?thesis using True npp pp ii "1.prems" by simp
            next
              case False
              then show ?thesis using a npp ii by simp
            qed
          qed
        qed
      next
        fix i assume i: "0 < i \<and> i < length (?h1[?pp := newitem]) \<and> (i - 1) div 2 = ?pp \<and> 0 < ?pp"
        let ?g = "(?pp - 1) div 2"
        have g: "?g < ?pp" using i parent_less[of ?pp] by blast
        have ipp: "?pp < i" using i parent_less[of i] by simp
        have "cost (?h' ! ((?pp - 1) div 2)) \<le> cost (?h' ! ?pp)"
          using alm i pp by (metis (no_types, lifting) length_list_update less_trans nat_neq_iff)
        then have gp: "cost (heap ! ?g) \<le> cost (heap ! ?pp)" using g pp by simp
        have hg: "?h1[?pp := newitem] ! ?g = heap ! ?g" using g pp by simp
        show "cost (?h1[?pp := newitem] ! ?g) \<le> cost (?h1[?pp := newitem] ! i)"
        proof (cases "i = pos")
          case True
          have "?h1[?pp := newitem] ! i = heap ! ?pp" using True pp "1.prems" by simp
          then show ?thesis using gp hg by simp
        next
          case False
          then have "cost (?h' ! ((i - 1) div 2)) \<le> cost (?h' ! i)" using alm i by (metis length_list_update)
          then have "cost (heap ! ?pp) \<le> cost (heap ! i)" using False i pp by simp
          moreover have "?h1[?pp := newitem] ! i = heap ! i" using False ipp by simp
          ultimately show ?thesis using gp hg by simp
        qed
      qed
      from "1.hyps"[OF pos refl refl True _ this] pp eq show ?thesis by simp
    qed
  qed
qed

lemma heap_inv_min: "heap_inv h \<Longrightarrow> i < length h \<Longrightarrow> cost (h ! 0) \<le> cost (h ! i)"
proof (induction i rule: less_induct)
  case (less i)
  show ?case
  proof (cases "i = 0")
    case True
    then show ?thesis by simp
  next
    case False
    then have p: "(i - 1) div 2 < i" using parent_less[of i] by simp
    with less.prems have "cost (h ! 0) \<le> cost (h ! ((i - 1) div 2))"
      by (intro less.IH) auto
    moreover have "cost (h ! ((i - 1) div 2)) \<le> cost (h ! i)"
      using less.prems False by (simp add: heap_inv_def)
    ultimately show ?thesis by simp
  qed
qed

lemma heap_inv_push: "heap_inv h \<Longrightarrow> heap_inv (heappush h x)"
proof -
  assume h: "heap_inv h"
  have "almost_heap ((h @ [x])[length h := x]) (length h)"
    unfolding almost_heap_def
  proof (intro conjI allI impI)
    fix i assume i: "0 < i \<and> i < length ((h @ [x])[length h := x]) \<and> i \<noteq> length h"
    then have il: "i < length h" by simp
    then have "(i - 1) div 2 < length h" using parent_less[of i] i by simp
    with il h i show "cost ((h @ [x])[length h := x] ! ((i - 1) div 2)) \<le> cost ((h @ [x])[length h := x] ! i)"
      by (simp add: heap_inv_def nth_append)
  next
    fix i assume i: "0 < i \<and> i < length ((h @ [x])[length h := x]) \<and> (i - 1) div 2 = length h \<and> 0 < length h"
    then have "(i - 1) div 2 < i" using parent_less[of i] by simp
    with i have False by simp
    then show "cost ((h @ [x])[length h := x] ! ((length h - 1) div 2)) \<le> cost ((h @ [x])[length h := x] ! i)" ..
  qed
  then have "heap_inv (siftdown_loop (h @ [x]) 0 (length h) x)"
    by (intro heap_inv_siftdown_loop) simp_all
  then show ?thesis by (simp add: heappush_def siftdown_def)
qed

lemma mset_heappush: "mset (heappush h x) = add_mset x (mset h)"
  by (simp add: heappush_def siftdown_def mset_siftdown_loop)

lemma siftup_loop_props:
  assumes "pos < length h" "childpos = 2 * pos + 1" "hole_heap h pos"
    and "siftup_loop h pos childpos = (h1, p1)"
  shows "length h1 = length h \<and> p1 < length h \<and> length h \<le> 2 * p1 + 1 \<and> hole_heap h1 p1
         \<and> (\<forall>x. mset (h1[p1 := x]) = mset (h[pos := x]))"
  using assms
proof (induction h pos childpos arbitrary: h1 p1 rule: siftup_loop.induct)
  case (1 heap pos childpos)
  show ?case
  proof (cases "childpos < length heap")
    case False
    then have "siftup_loop heap pos childpos = (heap, pos)" by (subst siftup_loop.simps) simp
    with "1.prems" False show ?thesis by auto
  next
    case True
    define c where "c = (if childpos + 1 < length heap \<and> \<not> item_lt (heap ! childpos) (heap ! (childpos + 1))
                  then childpos + 1 else childpos)"
    let ?h' = "heap[pos := heap ! c]"
    have c: "c < length heap" "c = 2 * pos + 1 \<or> c = 2 * pos + 2" "pos < c"
      using True "1.prems"(2) by (auto simp: c_def)
    have pc: "(c - 1) div 2 = pos" using c(2) by auto
    have small: "cost (heap ! c) \<le> cost (heap ! i)" if "0 < i" "i < length heap" "(i - 1) div 2 = pos" for i
    proof -
      from that have "i = 2 * pos + 1 \<or> i = 2 * pos + 2" by auto
      then show ?thesis using that "1.prems"(2) True
        by (auto simp: c_def item_lt_def)
    qed
    have eq: "siftup_loop heap pos childpos = siftup_loop ?h' c (2 * c + 1)"
      using True by (subst siftup_loop.simps) (simp add: Let_def c_def)
    have hole: "hole_heap ?h' c"
      unfolding hole_heap_def
    proof (intro conjI allI impI)
      fix i assume i: "0 < i \<and> i < length ?h' \<and> i \<noteq> c \<and> (i - 1) div 2 \<noteq> c"
      let ?pi = "(i - 1) div 2"
      have pi: "?pi < i" using i parent_less[of i] by simp
      show "cost (?h' ! ?pi) \<le> cost (?h' ! i)"
      proof (cases "i = pos")
        case True
        then have "0 < pos" using i by simp
        have "?pi \<noteq> pos" using pi True by simp
        have "cost (heap ! ((pos - 1) div 2)) \<le> cost (heap ! c)"
          using "1.prems"(3) c pc \<open>0 < pos\<close> unfolding hole_heap_def
          by (metis (no_types, lifting) gr_implies_not0 neq0_conv)
        then show ?thesis using True \<open>?pi \<noteq> pos\<close> "1.prems"(1) by simp
      next
        case ip: False
        show ?thesis
        proof (cases "?pi = pos")
          case True
          from small[of i] i True have "cost (heap ! c) \<le> cost (heap ! i)" by simp
          then show ?thesis using True ip "1.prems"(1) by simp
        next
          case False
          then have "cost (heap ! ?pi) \<le> cost (heap ! i)"
            using "1.prems"(3) i ip unfolding hole_heap_def by simp
          then show ?thesis using False ip by simp
        qed
      qed
    next
      fix i assume i: "0 < i \<and> i < length ?h' \<and> (i - 1) div 2 = c \<and> 0 < c"
      have "c < i" using i parent_less[of i] by simp
      then have ne: "i \<noteq> pos" "i \<noteq> c" using c(3) by auto
      have "(i - 1) div 2 \<noteq> pos" using i c(3) by simp
      then have "cost (heap ! c) \<le> cost (heap ! i)"
        using "1.prems"(3) i ne unfolding hole_heap_def by (metis length_list_update)
      then show "cost (?h' ! ((c - 1) div 2)) \<le> cost (?h' ! i)"
        using pc ne "1.prems"(1) by simp
    qed
    from "1.prems"(4) eq have r: "siftup_loop ?h' c (2 * c + 1) = (h1, p1)" by simp
    have ih: "length h1 = length ?h' \<and> p1 < length ?h' \<and> length ?h' \<le> 2 * p1 + 1 \<and> hole_heap h1 p1
         \<and> (\<forall>x. mset (h1[p1 := x]) = mset (?h'[c := x]))"
      using "1.IH"[OF True refl c_def _ refl hole r] c(1) by simp
    have "mset (?h'[c := x]) = mset (heap[pos := x])" for x
    proof -
      let ?ls = "heap[pos := x]"
      have "mset (?ls[pos := ?ls ! c, c := ?ls ! pos]) = mset ?ls"
        by (rule mset_swap) (use c "1.prems"(1) in auto)
      then show ?thesis using c "1.prems"(1) by simp
    qed
    with ih show ?thesis by simp
  qed
qed

lemma heappop_None: "heappop h = None \<longleftrightarrow> h = []"
  by (simp add: heappop_def Let_def)

lemma heap_inv_siftup:
  assumes "heap_inv (rest @ [l])" "rest \<noteq> []"
  shows "heap_inv (siftup (rest[0 := l]) 0) \<and> mset (siftup (rest[0 := l]) 0) = mset (rest[0 := l])"
proof -
  let ?R = "rest[0 := l]"
  obtain h1 p1 where sl: "siftup_loop ?R 0 (2 * 0 + 1) = (h1, p1)"
    by (cases "siftup_loop ?R 0 (2 * 0 + 1)") auto
  have len: "0 < length ?R" using assms(2) by simp
  have hole: "hole_heap ?R 0"
    unfolding hole_heap_def
  proof (intro conjI allI impI)
    fix i assume i: "0 < i \<and> i < length ?R \<and> i \<noteq> 0 \<and> (i - 1) div 2 \<noteq> 0"
    then have pi: "(i - 1) div 2 < i" using parent_less[of i] by simp
    have "cost ((rest @ [l]) ! ((i - 1) div 2)) \<le> cost ((rest @ [l]) ! i)"
      using assms(1) i by (simp add: heap_inv_def)
    then show "cost (?R ! ((i - 1) div 2)) \<le> cost (?R ! i)"
      using i pi by (simp add: nth_append)
  qed simp
  from siftup_loop_props[OF len refl hole sl]
  have p: "length h1 = length ?R" "p1 < length ?R" "length ?R \<le> 2 * p1 + 1" "hole_heap h1 p1"
    "\<And>x. mset (h1[p1 := x]) = mset (?R[0 := x])" by auto
  have leaf: "(i - 1) div 2 \<noteq> p1" if "0 < i" "i < length h1" for i
    using that p(1,3) by auto
  have alm: "almost_heap (h1[p1 := l]) p1"
    unfolding almost_heap_def
  proof (intro conjI allI impI)
    fix i assume i: "0 < i \<and> i < length (h1[p1 := l]) \<and> i \<noteq> p1"
    then have "(i - 1) div 2 \<noteq> p1" using leaf[of i] by simp
    moreover from this i p(4) have "cost (h1 ! ((i - 1) div 2)) \<le> cost (h1 ! i)"
      by (simp add: hole_heap_def)
    ultimately show "cost (h1[p1 := l] ! ((i - 1) div 2)) \<le> cost (h1[p1 := l] ! i)"
      using i by simp
  next
    fix i assume "0 < i \<and> i < length (h1[p1 := l]) \<and> (i - 1) div 2 = p1 \<and> 0 < p1"
    then have False using leaf[of i] by simp
    then show "cost (h1[p1 := l] ! ((p1 - 1) div 2)) \<le> cost (h1[p1 := l] ! i)" ..
  qed
  have su: "siftup ?R 0 = siftdown_loop (h1[p1 := l]) 0 p1 l"
    using sl p(1,2) len by (simp add: siftup_def siftdown_def)
  have "heap_inv (siftdown_loop (h1[p1 := l]) 0 p1 l)"
    by (rule heap_inv_siftdown_loop) (use p(1,2) alm in simp_all)
  moreover have "mset (siftdown_loop (h1[p1 := l]) 0 p1 l) = mset ?R"
    using mset_siftdown_loop[of p1 "h1[p1 := l]" 0 l] p(1,2) p(5)[of l] by simp
  ultimately show ?thesis using su by simp
qed

lemma heappop_props:
  assumes "heap_inv h" "h \<noteq> []"
  shows "\<exists>x h'. heappop h = Some (x, h') \<and> mset h = add_mset x (mset h') \<and> heap_inv h'
           \<and> (\<forall>y \<in> set h. cost x \<le> cost y)"
proof -
  define rest l where "rest = butlast h" and "l = last h"
  have h: "h = rest @ [l]" using assms(2) by (simp add: rest_def l_def)
  have mn: "\<forall>y \<in> set h. cost (h ! 0) \<le> cost y"
    using heap_inv_min[OF assms(1)] by (auto simp: in_set_conv_nth)
  show ?thesis
  proof (cases "rest = []")
    case True
    then have "heappop h = Some (l, [])" using h by (simp add: heappop_def)
    moreover have "heap_inv []" by (simp add: heap_inv_def)
    ultimately show ?thesis using h True by simp
  next
    case False
    then have pop: "heappop h = Some (rest ! 0, siftup (rest[0 := l]) 0)"
      using h by (simp add: heappop_def)
    have h0: "h ! 0 = rest ! 0" using False h by (simp add: nth_append)
    from heap_inv_siftup[OF assms(1)[unfolded h] False]
    have s: "heap_inv (siftup (rest[0 := l]) 0)" "mset (siftup (rest[0 := l]) 0) = mset (rest[0 := l])"
      by auto
    have "mset (rest[0 := l]) = add_mset l (mset rest - {#rest ! 0#})"
      using False by (simp add: mset_update)
    moreover have "rest ! 0 \<in># mset rest" using False by simp
    ultimately have "add_mset (rest ! 0) (mset (rest[0 := l])) = add_mset l (mset rest)"
      by simp
    then have "mset h = add_mset (rest ! 0) (mset (siftup (rest[0 := l]) 0))"
      using h s(2) by simp
    with pop s(1) mn h0 show ?thesis by simp
  qed
qed

section \<open>Correctness of the search\<close>

lemma walk_nonneg:
  assumes "positive_weights adj" "walk adj origin v c"
  shows "0 \<le> c"
  using assms(2,1)
proof (induction rule: walk.induct)
  case walk_start
  show ?case by simp
next
  case (walk_arc u c v w e)
  then have "0 < w" unfolding positive_weights_def by blast
  with walk_arc show ?case by simp
qed

lemma heap_inv_Nil: "heap_inv []"
  by (simp add: heap_inv_def)

lemma set_heappush: "set (heappush pq x) = insert x (set pq)"
proof -
  have "set_mset (mset (heappush pq x)) = set_mset (add_mset x (mset pq))"
    by (simp only: mset_heappush)
  then show ?thesis by simp
qed

lemma frontier_inv_mono:
  "frontier_inv adj destination S P s \<Longrightarrow> P \<subseteq> P' \<Longrightarrow> frontier_inv adj destination S P' s"
  unfolding frontier_inv_def by (cases s) (simp, blast)

lemma relax_arc_improve:
  assumes pw: "positive_weights adj"
    and uS: "u \<in> S" and arc: "(v, w, e) \<in> set (adj_get adj u)"
    and core: "core_inv adj origin S (dists, prev, pq)"
    and fr: "frontier_inv adj destination S P (dists, prev, pq)"
    and du: "dists u = Some du"
    and imp: "case dists v of None \<Rightarrow> True | Some dn \<Rightarrow> du + w < dn"
  shows "core_inv adj origin S
           (dists(v \<mapsto> du + w), prev(v \<mapsto> Some u), heappush pq \<lparr>cost = du + w, node_id = v\<rparr>)"
    and "frontier_inv adj destination S (P - {(u, v, w, e)})
           (dists(v \<mapsto> du + w), prev(v \<mapsto> Some u), heappush pq \<lparr>cost = du + w, node_id = v\<rparr>)"
proof -
  let ?new = "du + w"
  let ?d' = "dists(v \<mapsto> ?new)"
  let ?p' = "prev(v \<mapsto> Some u)"
  let ?q' = "heappush pq \<lparr>cost = ?new, node_id = v\<rparr>"
  from core have c_heap: "heap_inv pq" and c_o: "dists origin = Some 0" and c_po: "prev origin = Some None"
    and c_dom: "\<And>x. (prev x = None) = (dists x = None)"
    and c_sub: "dom dists \<subseteq> insert origin (arc_targets adj)"
    and c_walk: "\<And>x d. dists x = Some d \<Longrightarrow> walk adj origin x d"
    and c_chain: "\<And>x d. dists x = Some d \<Longrightarrow> x \<noteq> origin \<Longrightarrow>
              \<exists>y dy w' e'. prev x = Some (Some y) \<and> y \<in> S \<and> dists y = Some dy
                 \<and> (x, w', e') \<in> set (adj_get adj y) \<and> d = dy + w'"
    and c_pq: "\<And>it. it \<in> set pq \<Longrightarrow> \<exists>d. dists (node_id it) = Some d \<and> d \<le> cost it"
    and c_S: "\<And>y. y \<in> S \<Longrightarrow> \<exists>dy. dists y = Some dy \<and> (\<forall>c. walk adj origin y c \<longrightarrow> dy \<le> c)"
    unfolding core_inv_def by auto
  note fr' = fr[unfolded frontier_inv_def prod.case]
  from fr' have f_dest: "destination \<notin> S" by blast
  from fr' have f_q: "\<And>x d. dists x = Some d \<Longrightarrow> x \<notin> S \<Longrightarrow> \<lparr>cost = d, node_id = x\<rparr> \<in> set pq"
    by blast
  from fr' have f_rel: "\<And>y x w' e'. y \<in> S \<Longrightarrow> (x, w', e') \<in> set (adj_get adj y) \<Longrightarrow> (y, x, w', e') \<notin> P \<Longrightarrow>
              \<exists>dy dx. dists y = Some dy \<and> dists x = Some dx \<and> dx \<le> dy + w'"
    by blast
  have wpos: "0 < w" using pw arc by (auto simp: positive_weights_def)
  have wu: "walk adj origin u du" by (rule c_walk[OF du])
  have wv: "walk adj origin v ?new" by (rule walk_arc[OF wu arc])
  have du0: "0 \<le> du" by (rule walk_nonneg[OF pw wu])
  have vS: "v \<notin> S"
  proof
    assume "v \<in> S"
    from c_S[OF this] obtain dv where dv: "dists v = Some dv" "\<forall>c. walk adj origin v c \<longrightarrow> dv \<le> c" by blast
    with wv have "dv \<le> ?new" by blast
    with imp dv(1) show False by simp
  qed
  have vo: "v \<noteq> origin"
  proof
    assume "v = origin"
    with imp c_o have "?new < 0" by simp
    with du0 wpos show False by simp
  qed
  have vu: "v \<noteq> u" using vS uS by blast
  have old_le: "dists x = Some d \<Longrightarrow> \<exists>d'. ?d' x = Some d' \<and> d' \<le> d" for x d
    using imp by (cases "x = v") auto
  show "core_inv adj origin S (?d', ?p', ?q')"
    unfolding core_inv_def
  proof (simp only: prod.case, intro conjI)
    show "heap_inv ?q'" by (rule heap_inv_push[OF c_heap])
    show "?d' origin = Some 0" using vo c_o by simp
    show "?p' origin = Some None" using vo c_po by simp
    show "\<forall>x. (?p' x = None) = (?d' x = None)" using c_dom by simp
    show "dom ?d' \<subseteq> insert origin (arc_targets adj)"
      using c_sub arc by (auto simp: arc_targets_def)
    show "\<forall>x d. ?d' x = Some d \<longrightarrow> walk adj origin x d"
      using c_walk wv by (auto split: if_splits)
    show "\<forall>x d. ?d' x = Some d \<and> x \<noteq> origin \<longrightarrow>
              (\<exists>y dy w' e'. ?p' x = Some (Some y) \<and> y \<in> S \<and> ?d' y = Some dy
                 \<and> (x, w', e') \<in> set (adj_get adj y) \<and> d = dy + w')"
    proof (intro allI impI)
      fix x d assume x: "?d' x = Some d \<and> x \<noteq> origin"
      show "\<exists>y dy w' e'. ?p' x = Some (Some y) \<and> y \<in> S \<and> ?d' y = Some dy
                 \<and> (x, w', e') \<in> set (adj_get adj y) \<and> d = dy + w'"
      proof (cases "x = v")
        case True
        with x have "d = ?new" by simp
        with True uS du vu arc show ?thesis by auto
      next
        case False
        with x have "dists x = Some d" "x \<noteq> origin" by auto
        from c_chain[OF this] obtain y dy w' e' where y: "prev x = Some (Some y)" "y \<in> S"
          "dists y = Some dy" "(x, w', e') \<in> set (adj_get adj y)" "d = dy + w'" by blast
        from y(2) vS have "y \<noteq> v" by blast
        with y False show ?thesis by auto
      qed
    qed
    show "\<forall>it \<in> set ?q'. \<exists>d. ?d' (node_id it) = Some d \<and> d \<le> cost it"
    proof
      fix it assume "it \<in> set ?q'"
      then consider "it = \<lparr>cost = ?new, node_id = v\<rparr>" | "it \<in> set pq" by (auto simp: set_heappush)
      then show "\<exists>d. ?d' (node_id it) = Some d \<and> d \<le> cost it"
      proof cases
        case 1
        then show ?thesis by simp
      next
        case 2
        from c_pq[OF this] obtain d where d: "dists (node_id it) = Some d" "d \<le> cost it" by blast
        from old_le[OF d(1)] d(2) show ?thesis by force
      qed
    qed
    show "\<forall>y \<in> S. \<exists>dy. ?d' y = Some dy \<and> (\<forall>c. walk adj origin y c \<longrightarrow> dy \<le> c)"
      using c_S vS by auto
  qed
  show "frontier_inv adj destination S (P - {(u, v, w, e)}) (?d', ?p', ?q')"
    unfolding frontier_inv_def
  proof (simp only: prod.case, intro conjI)
    show "destination \<notin> S" by (rule f_dest)
    show "\<forall>x d. ?d' x = Some d \<and> x \<notin> S \<longrightarrow> \<lparr>cost = d, node_id = x\<rparr> \<in> set ?q'"
      using f_q by (auto simp: set_heappush split: if_splits)
    show "\<forall>y \<in> S. \<forall>x w' e'. (x, w', e') \<in> set (adj_get adj y) \<and> (y, x, w', e') \<notin> P - {(u, v, w, e)} \<longrightarrow>
              (\<exists>dy dx. ?d' y = Some dy \<and> ?d' x = Some dx \<and> dx \<le> dy + w')"
    proof (intro ballI allI impI)
      fix y x w' e'
      assume y: "y \<in> S" and a: "(x, w', e') \<in> set (adj_get adj y) \<and> (y, x, w', e') \<notin> P - {(u, v, w, e)}"
      have yv: "y \<noteq> v" using y vS by blast
      show "\<exists>dy dx. ?d' y = Some dy \<and> ?d' x = Some dx \<and> dx \<le> dy + w'"
      proof (cases "(y, x, w', e') = (u, v, w, e)")
        case True
        with du vu show ?thesis by auto
      next
        case False
        with a have "(y, x, w', e') \<notin> P" by blast
        from f_rel[OF y _ this] a obtain dy dx where d: "dists y = Some dy" "dists x = Some dx" "dx \<le> dy + w'"
          by blast
        from old_le[OF d(2)] obtain dx' where "?d' x = Some dx'" "dx' \<le> dx" by blast
        with d yv show ?thesis by auto
      qed
    qed
  qed
qed

lemma relax_arc_keep:
  assumes fr: "frontier_inv adj destination S P (dists, prev, pq)"
    and du: "dists u = Some du"
    and nimp: "\<not> (case dists v of None \<Rightarrow> True | Some dn \<Rightarrow> du + w < dn)"
  shows "frontier_inv adj destination S (P - {(u, v, w, e)}) (dists, prev, pq)"
proof -
  from nimp obtain dv where dv: "dists v = Some dv" "dv \<le> du + w"
    by (cases "dists v") auto
  show ?thesis
    using fr du dv unfolding frontier_inv_def
    by (simp only: prod.case) (metis DiffI Pair_inject singletonD)
qed

lemma relax_inv:
  assumes pw: "positive_weights adj" and uS: "u \<in> S"
  shows "set arcs \<subseteq> set (adj_get adj u) \<Longrightarrow>
         core_inv adj origin S s \<Longrightarrow>
         frontier_inv adj destination S ({u} \<times> set arcs) s \<Longrightarrow>
         \<exists>s'. relax u arcs s = Inr s' \<and> core_inv adj origin S s' \<and> frontier_inv adj destination S {} s'"
proof (induction arcs arbitrary: s)
  case Nil
  then show ?case by simp
next
  case (Cons a arcs)
  obtain v w e where a: "a = (v, w, e)" by (cases a) auto
  obtain dists prev pq where s: "s = (dists, prev, pq)" by (cases s) auto
  from Cons.prems(2) uS obtain du where du: "dists u = Some du"
    unfolding s core_inv_def by auto
  have arc: "(v, w, e) \<in> set (adj_get adj u)" using Cons.prems(1) a by simp
  have sub: "set arcs \<subseteq> set (adj_get adj u)" using Cons.prems(1) by simp
  have P: "{u} \<times> set (a # arcs) - {(u, v, w, e)} \<subseteq> {u} \<times> set arcs" using a by auto
  show ?case
  proof (cases "case dists v of None \<Rightarrow> True | Some dn \<Rightarrow> du + w < dn")
    case True
    let ?s1 = "(dists(v \<mapsto> du + w), prev(v \<mapsto> Some u), heappush pq \<lparr>cost = du + w, node_id = v\<rparr>)"
    have r: "relax u (a # arcs) s = relax u arcs ?s1"
      using True du by (simp add: a s Let_def)
    have c1: "core_inv adj origin S ?s1"
      by (rule relax_arc_improve(1)[OF pw uS arc Cons.prems(2)[unfolded s] Cons.prems(3)[unfolded s] du True])
    have "frontier_inv adj destination S ({u} \<times> set (a # arcs) - {(u, v, w, e)}) ?s1"
      by (rule relax_arc_improve(2)[OF pw uS arc Cons.prems(2)[unfolded s] Cons.prems(3)[unfolded s] du True])
    then have f1: "frontier_inv adj destination S ({u} \<times> set arcs) ?s1"
      by (rule frontier_inv_mono[OF _ P])
    from Cons.IH[OF sub c1 f1] r show ?thesis by simp
  next
    case False
    have r: "relax u (a # arcs) s = relax u arcs s"
      using False du by (simp add: a s Let_def)
    have "frontier_inv adj destination S ({u} \<times> set (a # arcs) - {(u, v, w, e)}) (dists, prev, pq)"
      by (rule relax_arc_keep[OF Cons.prems(3)[unfolded s] du False])
    then have f1: "frontier_inv adj destination S ({u} \<times> set arcs) s"
      unfolding s by (rule frontier_inv_mono[OF _ P])
    from Cons.IH[OF sub Cons.prems(2) f1] r show ?thesis by simp
  qed
qed

lemma core_invI:
  assumes "heap_inv pq" "dists origin = Some 0" "prev origin = Some None"
    and "\<And>v. (prev v = None) = (dists v = None)"
    and "dom dists \<subseteq> insert origin (arc_targets adj)"
    and "\<And>v d. dists v = Some d \<Longrightarrow> walk adj origin v d"
    and "\<And>v d. dists v = Some d \<Longrightarrow> v \<noteq> origin \<Longrightarrow>
           \<exists>u du w e. prev v = Some (Some u) \<and> u \<in> S \<and> dists u = Some du
              \<and> (v, w, e) \<in> set (adj_get adj u) \<and> d = du + w"
    and "\<And>it. it \<in> set pq \<Longrightarrow> \<exists>d. dists (node_id it) = Some d \<and> d \<le> cost it"
    and "\<And>u. u \<in> S \<Longrightarrow> \<exists>du. dists u = Some du \<and> (\<forall>c. walk adj origin u c \<longrightarrow> du \<le> c)"
  shows "core_inv adj origin S (dists, prev, pq)"
  unfolding core_inv_def prod.case
  using assms(1-5) assms(6-9) by (intro conjI allI impI ballI) (simp_all only: , blast+)

lemma core_invD:
  assumes "core_inv adj origin S (dists, prev, pq)"
  shows "heap_inv pq" "dists origin = Some 0" "prev origin = Some None"
    and "\<And>v. (prev v = None) = (dists v = None)"
    and "dom dists \<subseteq> insert origin (arc_targets adj)"
    and "\<And>v d. dists v = Some d \<Longrightarrow> walk adj origin v d"
    and "\<And>v d. dists v = Some d \<Longrightarrow> v \<noteq> origin \<Longrightarrow>
           \<exists>u du w e. prev v = Some (Some u) \<and> u \<in> S \<and> dists u = Some du
              \<and> (v, w, e) \<in> set (adj_get adj u) \<and> d = du + w"
    and "\<And>it. it \<in> set pq \<Longrightarrow> \<exists>d. dists (node_id it) = Some d \<and> d \<le> cost it"
    and "\<And>u. u \<in> S \<Longrightarrow> \<exists>du. dists u = Some du \<and> (\<forall>c. walk adj origin u c \<longrightarrow> du \<le> c)"
  using assms unfolding core_inv_def prod.case by blast+

lemma frontier_invD:
  assumes "frontier_inv adj destination S P (dists, prev, pq)"
  shows "destination \<notin> S"
    and "\<And>v d. dists v = Some d \<Longrightarrow> v \<notin> S \<Longrightarrow> \<lparr>cost = d, node_id = v\<rparr> \<in> set pq"
    and "\<And>u v w e. u \<in> S \<Longrightarrow> (v, w, e) \<in> set (adj_get adj u) \<Longrightarrow> (u, v, w, e) \<notin> P \<Longrightarrow>
           \<exists>du dv. dists u = Some du \<and> dists v = Some dv \<and> dv \<le> du + w"
  using assms unfolding frontier_inv_def prod.case by blast+

lemma frontier_invI:
  assumes "destination \<notin> S"
    and "\<And>v d. dists v = Some d \<Longrightarrow> v \<notin> S \<Longrightarrow> \<lparr>cost = d, node_id = v\<rparr> \<in> set pq"
    and "\<And>u v w e. u \<in> S \<Longrightarrow> (v, w, e) \<in> set (adj_get adj u) \<Longrightarrow> (u, v, w, e) \<notin> P \<Longrightarrow>
           \<exists>du dv. dists u = Some du \<and> dists v = Some dv \<and> dv \<le> du + w"
  shows "frontier_inv adj destination S P (dists, prev, pq)"
  unfolding frontier_inv_def prod.case using assms by blast

lemma frontier_crossing:
  assumes pw: "positive_weights adj"
    and core: "core_inv adj origin S (dists, prev, pq)"
    and fr: "frontier_inv adj destination S {} (dists, prev, pq)"
    and w: "walk adj origin x c"
  shows "(x \<in> S \<and> (\<exists>dx. dists x = Some dx \<and> dx \<le> c))
         \<or> (\<exists>y dy. y \<notin> S \<and> dists y = Some dy \<and> dy \<le> c)"
  using w
proof (induction rule: walk.induct)
  case walk_start
  from core have "dists origin = Some 0" unfolding core_inv_def by simp
  then show ?case by (cases "origin \<in> S") auto
next
  case (walk_arc u c v w e)
  have wpos: "0 < w" using pw walk_arc.hyps(2) unfolding positive_weights_def by blast
  from walk_arc.IH show ?case
  proof
    assume u: "u \<in> S \<and> (\<exists>dx. dists u = Some dx \<and> dx \<le> c)"
    then obtain du where du: "dists u = Some du" "du \<le> c" by blast
    from fr[unfolded frontier_inv_def prod.case] u walk_arc.hyps(2)
    obtain du' dv where "dists u = Some du'" "dists v = Some dv" "dv \<le> du' + w" by blast
    with du have "dists v = Some dv" "dv \<le> c + w" by auto
    then show ?thesis by (cases "v \<in> S") auto
  next
    assume "\<exists>y dy. y \<notin> S \<and> dists y = Some dy \<and> dy \<le> c"
    then obtain y dy where "y \<notin> S" "dists y = Some dy" "dy \<le> c" by blast
    with wpos have "y \<notin> S \<and> dists y = Some dy \<and> dy \<le> c + w" by simp
    then show ?thesis by blast
  qed
qed

lemma relax_noop:
  "dists u = Some du \<Longrightarrow>
   (\<forall>v w e. (v, w, e) \<in> set arcs \<longrightarrow> (\<exists>dv. dists v = Some dv \<and> dv \<le> du + w)) \<Longrightarrow>
   relax u arcs (dists, prev, pq) = Inr (dists, prev, pq)"
proof (induction arcs)
  case Nil
  show ?case by simp
next
  case (Cons a arcs)
  obtain v w e where a: "a = (v, w, e)" by (cases a) auto
  have "(v, w, e) \<in> set (a # arcs)" using a by simp
  with Cons.prems(2) obtain dv where "dists v = Some dv" "dv \<le> du + w" by blast
  then have "relax u (a # arcs) (dists, prev, pq) = relax u arcs (dists, prev, pq)"
    using Cons.prems(1) by (simp add: a Let_def)
  moreover have "relax u arcs (dists, prev, pq) = Inr (dists, prev, pq)"
    by (rule Cons.IH[OF Cons.prems(1)]) (use Cons.prems(2) in auto)
  ultimately show ?case by simp
qed

lemma core_inv_pop:
  assumes "core_inv adj origin S (dists, prev, pq)" "heap_inv pq1" "set pq1 \<subseteq> set pq"
  shows "core_inv adj origin S (dists, prev, pq1)"
proof (rule core_invI)
  note c = core_invD[OF assms(1)]
  show "heap_inv pq1" by (rule assms(2))
  show "dists origin = Some 0" "prev origin = Some None" "dom dists \<subseteq> insert origin (arc_targets adj)"
    by (rule c)+
  show "(prev v = None) = (dists v = None)" for v by (rule c)
  show "walk adj origin v d" if "dists v = Some d" for v d by (rule c(6)[OF that])
  show "\<exists>u du w e. prev v = Some (Some u) \<and> u \<in> S \<and> dists u = Some du
              \<and> (v, w, e) \<in> set (adj_get adj u) \<and> d = du + w" if "dists v = Some d" "v \<noteq> origin" for v d
    by (rule c(7)[OF that])
  show "\<exists>d. dists (node_id it) = Some d \<and> d \<le> cost it" if "it \<in> set pq1" for it
    using c(8)[of it] that assms(3) by blast
  show "\<exists>du. dists u = Some du \<and> (\<forall>c. walk adj origin u c \<longrightarrow> du \<le> c)" if "u \<in> S" for u
    by (rule c(9)[OF that])
qed

lemma frontier_inv_pop:
  assumes fr: "frontier_inv adj destination S {} (dists, prev, pq)"
    and pop: "set pq = insert it (set pq1)"
    and it: "node_id it \<in> S \<or> (\<exists>d. dists (node_id it) = Some d \<and> d < cost it)"
  shows "frontier_inv adj destination S {} (dists, prev, pq1)"
proof (rule frontier_invI)
  note f = frontier_invD[OF fr]
  show "destination \<notin> S" by (rule f)
  show "\<exists>du dv. dists u = Some du \<and> dists v = Some dv \<and> dv \<le> du + w"
    if "u \<in> S" "(v, w, e) \<in> set (adj_get adj u)" "(u, v, w, e) \<notin> {}" for u v w e
    by (rule f(3)[OF that])
  show "\<lparr>cost = d, node_id = v\<rparr> \<in> set pq1" if v: "dists v = Some d" "v \<notin> S" for v d
  proof -
    have "\<lparr>cost = d, node_id = v\<rparr> \<in> set pq" by (rule f(2)[OF v])
    moreover have "\<lparr>cost = d, node_id = v\<rparr> \<noteq> it" using it v by auto
    ultimately show ?thesis using pop by auto
  qed
qed

lemma core_inv_insert:
  assumes core: "core_inv adj origin S (dists, prev, pq)"
    and du: "dists u = Some du" and opt: "\<forall>c. walk adj origin u c \<longrightarrow> du \<le> c"
  shows "core_inv adj origin (insert u S) (dists, prev, pq)"
proof (rule core_invI)
  note c = core_invD[OF core]
  show "heap_inv pq" "dists origin = Some 0" "prev origin = Some None"
    "dom dists \<subseteq> insert origin (arc_targets adj)"
    by (rule c)+
  show "(prev v = None) = (dists v = None)" for v by (rule c)
  show "walk adj origin v d" if "dists v = Some d" for v d by (rule c(6)[OF that])
  show "\<exists>y dy w e. prev v = Some (Some y) \<and> y \<in> insert u S \<and> dists y = Some dy
              \<and> (v, w, e) \<in> set (adj_get adj y) \<and> d = dy + w" if "dists v = Some d" "v \<noteq> origin" for v d
    using c(7)[OF that] by blast
  show "\<exists>d. dists (node_id it) = Some d \<and> d \<le> cost it" if "it \<in> set pq" for it
    by (rule c(8)[OF that])
  show "\<exists>dy. dists y = Some dy \<and> (\<forall>c. walk adj origin y c \<longrightarrow> dy \<le> c)" if "y \<in> insert u S" for y
    using that c(9)[of y] du opt by blast
qed

lemma dijkstra_loop_correct:
  assumes pw: "positive_weights adj" and fin: "finite (arc_targets adj)"
  shows "card (insert origin (arc_targets adj) - S) = n \<Longrightarrow> length (snd (snd s)) = k \<Longrightarrow>
         core_inv adj origin S s \<Longrightarrow> frontier_inv adj destination S {} s \<Longrightarrow>
         \<exists>s'. dijkstra_loop adj destination s = Some (Inr s') \<and> search_post adj origin destination s'"
proof (induction n arbitrary: S s k rule: less_induct)
  case (less n)
  note outer = less.IH
  show ?case using less.prems
  proof (induction k arbitrary: s rule: less_induct)
    case (less k)
    note inner = less.IH
    obtain dists prev pq where s: "s = (dists, prev, pq)" by (cases s) auto
    note core = less.prems(3)[unfolded s]
    note fr = less.prems(4)[unfolded s]
    note c = core_invD[OF core]
    note f = frontier_invD[OF fr]
    have k: "length pq = k" using less.prems(2) s by simp
    show ?case
    proof (cases "pq = []")
      case True
      have r: "dijkstra_loop adj destination s = Some (Inr s)"
        unfolding s using True by (subst dijkstra_loop.simps) (simp add: heappop_def)
      have allS: "v \<in> S" if "dists v = Some d" for v d
        using f(2)[OF that] True by auto
      have nd: "dists destination = None"
      proof (cases "dists destination")
        case (Some d)
        from allS[OF this] f(1) show ?thesis by simp
      qed simp
      have nw: "\<not> walk adj origin destination c" for c
      proof
        assume "walk adj origin destination c"
        from frontier_crossing[OF pw core fr this] allS f(1) show False by blast
      qed
      have "search_post adj origin destination (dists, prev, pq)"
        unfolding search_post_def prod.case
      proof (intro conjI)
        show "\<exists>S. core_inv adj origin S (dists, prev, pq)" using core by blast
        show "dists destination = None \<longrightarrow> (\<forall>c. \<not> walk adj origin destination c)" using nw by simp
        show "\<forall>d. dists destination = Some d \<longrightarrow> (\<forall>c. walk adj origin destination c \<longrightarrow> d \<le> c)"
          using nd by simp
      qed
      with r s show ?thesis by blast
    next
      case False
      from heappop_props[OF c(1) False] obtain it pq1 where
        pop: "heappop pq = Some (it, pq1)" and ms: "mset pq = add_mset it (mset pq1)"
        and hp1: "heap_inv pq1" and mn: "\<forall>y \<in> set pq. cost it \<le> cost y" by blast
      have sets: "set pq = insert it (set pq1)"
        using arg_cong[OF ms, of set_mset] by simp
      have len: "length pq1 < length pq"
        using arg_cong[OF ms, of size] by simp
      have core1: "core_inv adj origin S (dists, prev, pq1)"
        by (rule core_inv_pop[OF core hp1]) (use sets in auto)
      have "it \<in> set pq" using sets by simp
      from c(8)[OF this] obtain du where du: "dists (node_id it) = Some du" "du \<le> cost it"
        by blast
      have low: "cost it \<le> c" if "walk adj origin x c" "x \<notin> S" for x c
      proof -
        from frontier_crossing[OF pw core fr that(1)] that(2)
        obtain y dy where y: "y \<notin> S" "dists y = Some dy" "dy \<le> c" by blast
        from f(2)[OF y(2,1)] mn have "cost it \<le> cost \<lparr>cost = dy, node_id = y\<rparr>" by blast
        with y(3) show ?thesis by simp
      qed
      show ?thesis
      proof (cases "node_id it = destination")
        case True
        have r: "dijkstra_loop adj destination s = Some (Inr (dists, prev, pq1))"
          unfolding s using pop True by (subst dijkstra_loop.simps) (simp add: Let_def)
        have opt: "du \<le> c" if "walk adj origin destination c" for c
          using low[OF that f(1)] du(2) by simp
        have "search_post adj origin destination (dists, prev, pq1)"
          unfolding search_post_def prod.case
        proof (intro conjI)
          show "\<exists>S. core_inv adj origin S (dists, prev, pq1)" using core1 by blast
          show "dists destination = None \<longrightarrow> (\<forall>c. \<not> walk adj origin destination c)"
            using du(1) True by simp
          show "\<forall>d. dists destination = Some d \<longrightarrow> (\<forall>c. walk adj origin destination c \<longrightarrow> d \<le> c)"
            using du(1) True opt by simp
        qed
        with r show ?thesis by blast
      next
        case nd: False
        show ?thesis
        proof (cases "du < cost it")
          case True
          have r: "dijkstra_loop adj destination s = dijkstra_loop adj destination (dists, prev, pq1)"
            unfolding s using pop nd True du(1) by (subst dijkstra_loop.simps) (simp add: Let_def)
          have fr1: "frontier_inv adj destination S {} (dists, prev, pq1)"
            by (rule frontier_inv_pop[OF fr sets]) (use du True in auto)
          have "\<exists>s'. dijkstra_loop adj destination (dists, prev, pq1) = Some (Inr s') \<and>
                  search_post adj origin destination s'"
            by (rule inner[OF _ less.prems(1) _ core1 fr1, of "length pq1"]) (use len k in simp_all)
          with r show ?thesis by simp
        next
          case False
          with du have eq: "du = cost it" by simp
          show ?thesis
          proof (cases "node_id it \<in> S")
            case True
            have "\<forall>v w e. (v, w, e) \<in> set (adj_get adj (node_id it)) \<longrightarrow>
                    (\<exists>dv. dists v = Some dv \<and> dv \<le> du + w)"
            proof (intro allI impI)
              fix v w e assume a: "(v, w, e) \<in> set (adj_get adj (node_id it))"
              from f(3)[OF True a] obtain du' dv where
                "dists (node_id it) = Some du'" "dists v = Some dv" "dv \<le> du' + w" by blast
              with du(1) show "\<exists>dv. dists v = Some dv \<and> dv \<le> du + w" by auto
            qed
            from relax_noop[of dists "node_id it" du "adj_get adj (node_id it)" prev pq1, OF du(1) this]
            have "relax (node_id it) (adj_get adj (node_id it)) (dists, prev, pq1) = Inr (dists, prev, pq1)" .
            then have r: "dijkstra_loop adj destination s = dijkstra_loop adj destination (dists, prev, pq1)"
              unfolding s using pop nd False du(1) by (subst dijkstra_loop.simps) (simp add: Let_def)
            have fr1: "frontier_inv adj destination S {} (dists, prev, pq1)"
              by (rule frontier_inv_pop[OF fr sets]) (use True in auto)
            have "\<exists>s'. dijkstra_loop adj destination (dists, prev, pq1) = Some (Inr s') \<and>
                  search_post adj origin destination s'"
              by (rule inner[OF _ less.prems(1) _ core1 fr1, of "length pq1"]) (use len k in simp_all)
            with r show ?thesis by simp
          next
            case uS: False
            let ?u = "node_id it"
            let ?S = "insert ?u S"
            have opt: "\<forall>c. walk adj origin ?u c \<longrightarrow> du \<le> c" using low uS eq by blast
            have core2: "core_inv adj origin ?S (dists, prev, pq1)"
              by (rule core_inv_insert[OF core1 du(1) opt])
            have fr2: "frontier_inv adj destination ?S ({?u} \<times> set (adj_get adj ?u)) (dists, prev, pq1)"
            proof (rule frontier_invI)
              show "destination \<notin> ?S" using f(1) nd by auto
              show "\<lparr>cost = d, node_id = v\<rparr> \<in> set pq1" if v: "dists v = Some d" "v \<notin> ?S" for v d
              proof -
                have "v \<notin> S" using v(2) by simp
                from f(2)[OF v(1) this] have "\<lparr>cost = d, node_id = v\<rparr> \<in> set pq" .
                moreover have "\<lparr>cost = d, node_id = v\<rparr> \<noteq> it" using v(2) by auto
                ultimately show ?thesis using sets by auto
              qed
              show "\<exists>dy dv. dists y = Some dy \<and> dists v = Some dv \<and> dv \<le> dy + w"
                if y: "y \<in> ?S" "(v, w, e) \<in> set (adj_get adj y)"
                  "(y, v, w, e) \<notin> {?u} \<times> set (adj_get adj ?u)" for y v w e
              proof -
                have "y \<noteq> ?u" using y(2,3) by auto
                with y(1) have "y \<in> S" by simp
                from f(3)[OF this y(2)] show ?thesis by simp
              qed
            qed
            have uin: "?u \<in> ?S" by simp
            from relax_inv[OF pw uin subset_refl core2 fr2] obtain s1 where
              s1: "relax ?u (adj_get adj ?u) (dists, prev, pq1) = Inr s1"
              "core_inv adj origin ?S s1" "frontier_inv adj destination ?S {} s1" by blast
            have r: "dijkstra_loop adj destination s = dijkstra_loop adj destination s1"
              unfolding s using pop nd False du(1) s1(1)
              by (subst dijkstra_loop.simps) (simp add: Let_def)
            have uV: "?u \<in> insert origin (arc_targets adj)"
              using c(5) du(1) by blast
            have "insert origin (arc_targets adj) - ?S \<subset> insert origin (arc_targets adj) - S"
              using uV uS by blast
            then have lt: "card (insert origin (arc_targets adj) - ?S) < n"
              unfolding less.prems(1)[symmetric] using fin by (intro psubset_card_mono) auto
            have "\<exists>s'. dijkstra_loop adj destination s1 = Some (Inr s') \<and>
                  search_post adj origin destination s'"
              by (rule outer[OF lt refl refl s1(2,3)])
            with r show ?thesis by simp
          qed
        qed
      qed
    qed
  qed
qed

lemma init_invariants:
  "core_inv adj origin {} ([origin \<mapsto> 0], [origin \<mapsto> None], [\<lparr>cost = 0, node_id = origin\<rparr>])"
  "frontier_inv adj destination {} {} ([origin \<mapsto> 0], [origin \<mapsto> None], [\<lparr>cost = 0, node_id = origin\<rparr>])"
proof -
  show "core_inv adj origin {} ([origin \<mapsto> 0], [origin \<mapsto> None], [\<lparr>cost = 0, node_id = origin\<rparr>])"
  proof (rule core_invI)
    show "heap_inv [\<lparr>cost = 0, node_id = origin\<rparr>]" by (simp add: heap_inv_def)
    show "walk adj origin v d" if "[origin \<mapsto> (0::real)] v = Some d" for v d
      using that walk_start[of adj origin] by (auto split: if_splits)
  qed (auto split: if_splits)
  show "frontier_inv adj destination {} {} ([origin \<mapsto> 0], [origin \<mapsto> None], [\<lparr>cost = 0, node_id = origin\<rparr>])"
    by (rule frontier_invI) (auto split: if_splits)
qed

lemma route_nonempty: "route adj p c \<Longrightarrow> p \<noteq> []"
  by (induction rule: route.induct) auto

lemma route_walk: "route adj p c \<Longrightarrow> walk adj (hd p) (last p) c"
proof (induction rule: route.induct)
  case (route_single u)
  show ?case by (simp add: walk_start)
next
  case (route_arc p u c v w e)
  have "hd (p @ [u, v]) = hd (p @ [u])" by (cases p) auto
  moreover from route_arc.IH have "walk adj (hd (p @ [u])) u c" by simp
  from walk_arc[OF this route_arc.hyps(2)] have "walk adj (hd (p @ [u])) v (c + w)" .
  ultimately show ?case by simp
qed

lemma walk_back_None: "walk_back prev None acc = Some acc"
  by (subst walk_back.simps) simp

lemma walk_back_Some:
  "walk_back prev (Some c) acc =
     walk_back prev (case prev c of None \<Rightarrow> None | Some p \<Rightarrow> p) (acc @ [c])"
  by (subst walk_back.simps) simp

lemma walk_back_chain:
  assumes pw: "positive_weights adj" and fin: "finite (arc_targets adj)"
    and core: "core_inv adj origin S (dists, prev, pq)"
  shows "card {x. \<exists>dx. dists x = Some dx \<and> dx < d} = n \<Longrightarrow> dists v = Some d \<Longrightarrow>
         \<exists>chain. walk_back prev (Some v) acc = Some (acc @ chain) \<and> route adj (rev chain) d
            \<and> hd (rev chain) = origin \<and> last (rev chain) = v"
proof (induction n arbitrary: v d acc rule: less_induct)
  case (less n)
  note c = core_invD[OF core]
  have findom: "finite (dom dists)"
    using c(5) fin by (meson finite_insert finite_subset)
  show ?case
  proof (cases "v = origin")
    case True
    have "walk_back prev (Some v) acc = Some (acc @ [origin])"
      using True c(3) by (simp add: walk_back_Some walk_back_None)
    moreover have "d = 0" using less.prems(2) True c(2) by simp
    ultimately show ?thesis using True route_single[of adj origin]
      by (intro exI[of _ "[origin]"]) simp
  next
    case False
    from c(7)[OF less.prems(2) False] obtain u du w e where
      u: "prev v = Some (Some u)" "dists u = Some du" "(v, w, e) \<in> set (adj_get adj u)" "d = du + w"
      by blast
    have wpos: "0 < w" using pw u(3) unfolding positive_weights_def by blast
    then have lt: "du < d" using u(4) by simp
    let ?A = "{x. \<exists>dx. dists x = Some dx \<and> dx < du}"
    let ?B = "{x. \<exists>dx. dists x = Some dx \<and> dx < d}"
    have "?B \<subseteq> dom dists" by auto
    then have finB: "finite ?B" using findom by (rule finite_subset)
    have "u \<in> ?B" "u \<notin> ?A" using u(2) lt by auto
    moreover have "?A \<subseteq> ?B" using lt by force
    ultimately have "?A \<subset> ?B" by blast
    then have "card ?A < n" using finB less.prems(1) psubset_card_mono by blast
    from less.IH[OF this refl u(2), of "acc @ [v]"] obtain chain where
      ch: "walk_back prev (Some u) (acc @ [v]) = Some ((acc @ [v]) @ chain)"
      "route adj (rev chain) du" "hd (rev chain) = origin" "last (rev chain) = u" by blast
    have ne: "rev chain \<noteq> []" by (rule route_nonempty[OF ch(2)])
    define p where "p = butlast (rev chain)"
    have dec: "rev chain = p @ [u]"
      unfolding p_def using ne ch(4) by (metis append_butlast_last_id)
    have "route adj (p @ [u]) du" using ch(2) unfolding dec .
    from route_arc[OF this u(3)] have "route adj (p @ [u, v]) d"
      using u(4) by simp
    moreover have "rev (v # chain) = p @ [u, v]" by (simp add: dec)
    ultimately have r: "route adj (rev (v # chain)) d" by (simp only:)
    have h: "hd (rev (v # chain)) = origin" using ne ch(3) by simp
    have "walk_back prev (Some v) acc = Some (acc @ (v # chain))"
      using u(1) ch(1) by (simp add: walk_back_Some)
    with r h show ?thesis by (intro exI[of _ "v # chain"]) simp
  qed
qed

lemma lookup_coords_Inr:
  "lookup_coords cs p = Inr cl \<Longrightarrow> (\<forall>n \<in> set p. cs n \<noteq> None) \<and> cl = map (\<lambda>n. the (cs n)) p"
  by (induction p arbitrary: cl) (auto split: option.splits sum.splits)

lemma lookup_coords_Inl:
  "lookup_coords cs p = Inl err \<Longrightarrow> \<exists>n \<in> set p. cs n = None \<and> err = KeyError n"
  by (induction p) (auto split: option.splits sum.splits)

lemma lookup_coords_missing:
  "\<exists>n \<in> set p. cs n = None \<Longrightarrow> \<exists>n \<in> set p. cs n = None \<and> lookup_coords cs p = Inl (KeyError n)"
proof (induction p)
  case Nil
  then show ?case by simp
next
  case (Cons a p)
  show ?case
  proof (cases "cs a")
    case None
    then show ?thesis by auto
  next
    case (Some c)
    with Cons.prems have "\<exists>n \<in> set p. cs n = None" by auto
    from Cons.IH[OF this] obtain n where "n \<in> set p" "cs n = None" "lookup_coords cs p = Inl (KeyError n)"
      by blast
    with Some show ?thesis by auto
  qed
qed

text \<open>What the search and the path reconstruction deliver, for a snapshot with positive
  weights: the reversed predecessor chain is a cheapest path, or there is no path.\<close>

lemma search_outcome:
  assumes pw: "positive_weights adj" and fin: "finite (arc_targets adj)"
  shows "\<exists>dists prev pq.
           dijkstra_loop adj destination
             ([origin \<mapsto> 0], [origin \<mapsto> None], [\<lparr>cost = 0, node_id = origin\<rparr>]) =
             Some (Inr (dists, prev, pq))
           \<and> ((prev destination = None \<and> (\<forall>c. \<not> walk adj origin destination c))
              \<or> (\<exists>d chain. prev destination \<noteq> None \<and> dists destination = Some d
                    \<and> walk_back prev (Some destination) [] = Some chain
                    \<and> route adj (rev chain) d \<and> hd (rev chain) = origin
                    \<and> last (rev chain) = destination
                    \<and> (\<forall>c. walk adj origin destination c \<longrightarrow> d \<le> c)))"
proof -
  from dijkstra_loop_correct[OF pw fin refl refl init_invariants, where origin = origin and destination = destination]
  obtain s' where s': "dijkstra_loop adj destination
             ([origin \<mapsto> 0], [origin \<mapsto> None], [\<lparr>cost = 0, node_id = origin\<rparr>]) = Some (Inr s')"
    "search_post adj origin destination s'" by blast
  obtain dists prev pq where s: "s' = (dists, prev, pq)" by (cases s') auto
  note sp = s'(2)[unfolded s search_post_def prod.case]
  from sp have "\<exists>S. core_inv adj origin S (dists, prev, pq)" by (rule conjunct1)
  then obtain S where core: "core_inv adj origin S (dists, prev, pq)" ..
  from sp have none: "dists destination = None \<longrightarrow> (\<forall>c. \<not> walk adj origin destination c)"
    by (rule conjunct1[OF conjunct2])
  from sp have some: "\<forall>d. dists destination = Some d \<longrightarrow> (\<forall>c. walk adj origin destination c \<longrightarrow> d \<le> c)"
    by (rule conjunct2[OF conjunct2])
  note c = core_invD[OF core]
  have run: "dijkstra_loop adj destination
             ([origin \<mapsto> 0], [origin \<mapsto> None], [\<lparr>cost = 0, node_id = origin\<rparr>]) =
             Some (Inr (dists, prev, pq))"
    using s'(1) s by simp
  show ?thesis
  proof (cases "dists destination")
    case None
    then have "prev destination = None" using c(4) by simp
    moreover have "\<forall>c. \<not> walk adj origin destination c" using none None by simp
    ultimately have A: "prev destination = None \<and> (\<forall>c. \<not> walk adj origin destination c)" ..
    show ?thesis
      by (rule exI[of _ dists], rule exI[of _ prev], rule exI[of _ pq], rule conjI, rule run,
          rule disjI1, rule A)
  next
    case (Some d)
    then have pd: "prev destination \<noteq> None" using c(4)[of destination] by simp
    from walk_back_chain[OF pw fin core refl Some, of "[]"] obtain chain where
      ch: "walk_back prev (Some destination) [] = Some chain" "route adj (rev chain) d"
      "hd (rev chain) = origin" "last (rev chain) = destination" by auto
    have opt: "\<forall>c. walk adj origin destination c \<longrightarrow> d \<le> c" using some Some by simp
    have A: "\<exists>d chain. prev destination \<noteq> None \<and> dists destination = Some d
                    \<and> walk_back prev (Some destination) [] = Some chain
                    \<and> route adj (rev chain) d \<and> hd (rev chain) = origin
                    \<and> last (rev chain) = destination
                    \<and> (\<forall>c. walk adj origin destination c \<longrightarrow> d \<le> c)"
      using pd Some ch opt by (intro exI[of _ d] exI[of _ chain] conjI)
    show ?thesis
      by (rule exI[of _ dists], rule exI[of _ prev], rule exI[of _ pq], rule conjI, rule run,
          rule disjI2, rule A)
  qed
qed

section \<open>Properties of compute\_route\<close>

lemma build_positive_weights:
  assumes "build_adjacency_list md ada db = Inr (adj, cs, hb)"
  shows "positive_weights adj"
  unfolding positive_weights_def
proof (intro allI impI)
  fix u v w e assume "(v, w, e) \<in> set (adj_get adj u)"
  then have "(u, v, w, e) \<in> arcs_of adj" by (simp add: arcs_of_def)
  then obtain e' where "(u, v, w, e) \<in> edge_arcs md e'"
    unfolding build_arcs(1)[OF assms] by (auto split: if_splits)
  from edge_arcs_weight[OF this] show "0 < w" by simp
qed

lemma finite_edge_arcs: "finite (edge_arcs md e)"
  by (simp add: edge_arcs_def split: option.splits)

lemma build_finite_targets:
  assumes "build_adjacency_list md ada db = Inr (adj, cs, hb)"
  shows "finite (arc_targets adj)"
proof -
  have "finite (arcs_of adj)"
    unfolding build_arcs(1)[OF assms] by (auto simp: finite_edge_arcs)
  moreover have "arc_targets adj = (\<lambda>(u, v, w, e). v) ` arcs_of adj"
    by (force simp: arc_targets_def arcs_of_def)
  ultimately show ?thesis by simp
qed

lemma dom_adj_append: "dom (adj_append adj k a) = insert k (dom adj)"
  by (auto simp: adj_append_def)

lemma add_intersections_dom:
  "add_intersections docs (adj, cs) = (adj', cs') \<Longrightarrow>
     dom adj' = dom adj \<union> iid ` set docs \<and> dom cs' = dom cs \<union> iid ` set docs"
proof (induction docs arbitrary: adj cs)
  case Nil
  then show ?case by simp
next
  case (Cons d ds)
  from Cons.prems have "add_intersections ds
       (adj(iid d \<mapsto> adj_get adj (iid d)), cs(iid d \<mapsto> location_coordinates d)) = (adj', cs')"
    by simp
  from Cons.IH[OF this] show ?case by auto
qed

lemma add_streets_dom:
  "add_streets md ada es (adj, hb) = Inr (adj', hb') \<Longrightarrow>
     dom adj' = dom adj \<union> fst ` (\<Union>e \<in> set es. if excluded ada e then {} else edge_arcs md e)"
proof (induction es arbitrary: adj hb)
  case Nil
  then show ?case by simp
next
  case (Cons e es)
  show ?case
  proof (cases "excluded ada e")
    case True
    with Cons.prems have "add_streets md ada es (adj, hb + 1) = Inr (adj', hb')"
      by (simp add: excluded_def)
    from Cons.IH[OF this] True show ?thesis by simp
  next
    case False
    then obtain w where w: "(if md = ''safest'' then danger_score e else Some (distance_m e)) = Some w"
      using Cons.prems by (auto simp: excluded_def split: option.splits)
    define adj2 where "adj2 = (let weight = max w (1 / 100);
                 start = start_intersection_id e;
                 end = end_intersection_id e;
                 adj1 = adj_append adj start (end, weight, e)
             in (if (case bidirectional e of None \<Rightarrow> True | Some b \<Rightarrow> b)
                         then adj_append adj1 end (start, weight, e) else adj1))"
    have step: "add_streets md ada es (adj2, hb) = Inr (adj', hb')"
      using Cons.prems False w unfolding adj2_def
      by (auto simp: excluded_def Let_def split: if_splits option.splits)
    have a2: "dom adj2 = dom adj \<union> fst ` edge_arcs md e"
      unfolding adj2_def edge_arcs_def using w
      by (auto simp: Let_def dom_adj_append)
    from Cons.IH[OF step] a2 False show ?thesis by auto
  qed
qed

lemma build_dom:
  assumes "build_adjacency_list md ada db = Inr (adj, cs, hb)"
  shows "dom cs = iid ` set (intersections db)"
    and "dom adj = iid ` set (intersections db) \<union> fst ` arcs_of adj"
proof -
  obtain adj0 cs0 where i: "add_intersections (intersections db) (Map.empty, Map.empty) = (adj0, cs0)"
    by (cases "add_intersections (intersections db) (Map.empty, Map.empty)") auto
  from assms i have s: "add_streets md ada (streets db) (adj0, 0) = Inr (adj, hb)" and c: "cs = cs0"
    by (auto simp: build_adjacency_list_def split: sum.splits)
  from add_intersections_dom[OF i] c show "dom cs = iid ` set (intersections db)" by simp
  from add_intersections_dom[OF i] add_streets_dom[OF s] build_arcs(1)[OF assms]
  show "dom adj = iid ` set (intersections db) \<union> fst ` arcs_of adj" by simp
qed

lemma walk_mono:
  assumes "\<And>u. set (adj_get adj1 u) \<subseteq> set (adj_get adj0 u)" and "walk adj1 origin v c"
  shows "walk adj0 origin v c"
  using assms(2)
proof (induction rule: walk.induct)
  case walk_start
  show ?case by (rule walk.walk_start)
next
  case (walk_arc u c v w e)
  from walk_arc.hyps(2) assms(1) have "(v, w, e) \<in> set (adj_get adj0 u)" by blast
  from walk.walk_arc[OF walk_arc.IH this] show ?case .
qed

lemma solve_outcome:
  assumes pw: "positive_weights adj" and fin: "finite (arc_targets adj)"
    and o: "adj origin \<noteq> None" and d: "adj destination \<noteq> None"
  shows "(solve adj cs hb md ada origin destination = Some (Inl (NoPathExists origin destination))
          \<and> (\<forall>c. \<not> walk adj origin destination c))
       \<or> (\<exists>p dmin. route adj p dmin \<and> hd p = origin \<and> last p = destination
             \<and> (\<forall>c. walk adj origin destination c \<longrightarrow> dmin \<le> c)
             \<and> ((\<exists>n \<in> set p. cs n = None
                    \<and> solve adj cs hb md ada origin destination = Some (Inl (KeyError n)))
                \<or> ((\<forall>n \<in> set p. cs n \<noteq> None)
                    \<and> solve adj cs hb md ada origin destination =
                        Some (Inr \<lparr>path = p, coordinates = map (\<lambda>n. the (cs n)) p,
                                   total_cost = py_round dmin 4, mode = md,
                                   ada_required = ada, hazards_bypassed = hb\<rparr>))))"
proof -
  from search_outcome[OF pw fin, of destination origin] obtain dists prev pq where
    run: "dijkstra_loop adj destination
             ([origin \<mapsto> 0], [origin \<mapsto> None], [\<lparr>cost = 0, node_id = origin\<rparr>]) =
             Some (Inr (dists, prev, pq))"
    and alt: "(prev destination = None \<and> (\<forall>c. \<not> walk adj origin destination c))
              \<or> (\<exists>d chain. prev destination \<noteq> None \<and> dists destination = Some d
                    \<and> walk_back prev (Some destination) [] = Some chain
                    \<and> route adj (rev chain) d \<and> hd (rev chain) = origin
                    \<and> last (rev chain) = destination
                    \<and> (\<forall>c. walk adj origin destination c \<longrightarrow> d \<le> c))"
    by blast
  from o d obtain ao ad where oa: "adj origin = Some ao" "adj destination = Some ad" by auto
  from alt show ?thesis
  proof
    assume a: "prev destination = None \<and> (\<forall>c. \<not> walk adj origin destination c)"
    then have "solve adj cs hb md ada origin destination = Some (Inl (NoPathExists origin destination))"
      using oa run by (simp add: solve_def)
    with a show ?thesis by blast
  next
    assume "\<exists>d chain. prev destination \<noteq> None \<and> dists destination = Some d
                    \<and> walk_back prev (Some destination) [] = Some chain
                    \<and> route adj (rev chain) d \<and> hd (rev chain) = origin
                    \<and> last (rev chain) = destination
                    \<and> (\<forall>c. walk adj origin destination c \<longrightarrow> d \<le> c)"
    then obtain dm chain where b: "prev destination \<noteq> None" "dists destination = Some dm"
      "walk_back prev (Some destination) [] = Some chain"
      "route adj (rev chain) dm" "hd (rev chain) = origin" "last (rev chain) = destination"
      "\<forall>c. walk adj origin destination c \<longrightarrow> dm \<le> c" by blast
    have s: "solve adj cs hb md ada origin destination =
       (case lookup_coords cs (rev chain) of
          Inl e \<Rightarrow> Some (Inl e)
        | Inr path_coords \<Rightarrow>
            Some (Inr \<lparr>path = rev chain, coordinates = path_coords,
                       total_cost = py_round dm 4, mode = md,
                       ada_required = ada, hazards_bypassed = hb\<rparr>))"
    proof -
      from b(1) obtain po where "prev destination = Some po" by auto
      then show ?thesis using oa run b(2,3) by (simp add: solve_def Let_def split: sum.splits)
    qed
    have "(\<exists>n \<in> set (rev chain). cs n = None
                    \<and> solve adj cs hb md ada origin destination = Some (Inl (KeyError n)))
          \<or> ((\<forall>n \<in> set (rev chain). cs n \<noteq> None)
                    \<and> solve adj cs hb md ada origin destination =
                        Some (Inr \<lparr>path = rev chain, coordinates = map (\<lambda>n. the (cs n)) (rev chain),
                                   total_cost = py_round dm 4, mode = md,
                                   ada_required = ada, hazards_bypassed = hb\<rparr>))"
    proof (cases "lookup_coords cs (rev chain)")
      case (Inl err)
      from lookup_coords_Inl[OF this] obtain n where "n \<in> set (rev chain)" "cs n = None" "err = KeyError n"
        by blast
      with s Inl show ?thesis by auto
    next
      case (Inr cl)
      from lookup_coords_Inr[OF this] s Inr show ?thesis by auto
    qed
    with b(4,5,6,7) have "\<exists>p dmin. route adj p dmin \<and> hd p = origin \<and> last p = destination
             \<and> (\<forall>c. walk adj origin destination c \<longrightarrow> dmin \<le> c)
             \<and> ((\<exists>n \<in> set p. cs n = None
                    \<and> solve adj cs hb md ada origin destination = Some (Inl (KeyError n)))
                \<or> ((\<forall>n \<in> set p. cs n \<noteq> None)
                    \<and> solve adj cs hb md ada origin destination =
                        Some (Inr \<lparr>path = p, coordinates = map (\<lambda>n. the (cs n)) p,
                                   total_cost = py_round dmin 4, mode = md,
                                   ada_required = ada, hazards_bypassed = hb\<rparr>)))"
      by (intro exI[of _ "rev chain"] exI[of _ dm]) (simp only: simp_thms)
    then show ?thesis by (rule disjI2)
  qed
qed

lemma add_streets_Inr_iff:
  "(\<exists>r. add_streets md ada es acc = Inr r) \<longleftrightarrow>
   (\<forall>e \<in> set es. \<not> excluded ada e \<longrightarrow>
      (if md = ''safest'' then danger_score e else Some (distance_m e)) \<noteq> None)"
proof (induction es arbitrary: acc)
  case Nil
  show ?case by simp
next
  case (Cons e es)
  obtain adj hb where acc: "acc = (adj, hb)" by (cases acc) auto
  show ?case
  proof (cases "excluded ada e")
    case True
    then have "add_streets md ada (e # es) acc = add_streets md ada es (adj, hb + 1)"
      by (simp add: acc excluded_def)
    with Cons.IH[of "(adj, hb + 1)"] True show ?thesis by simp
  next
    case False
    show ?thesis
    proof (cases "if md = ''safest'' then danger_score e else Some (distance_m e)")
      case None
      then have "add_streets md ada (e # es) acc = Inl (KeyError ''danger_score'')"
        using False by (auto simp: acc excluded_def split: if_splits)
      with None False show ?thesis by auto
    next
      case (Some w)
      then obtain adj2 where "add_streets md ada (e # es) acc = add_streets md ada es (adj2, hb)"
        using False by (auto simp: acc excluded_def Let_def split: if_splits)
      with Cons.IH[of "(adj2, hb)"] Some False show ?thesis by simp
    qed
  qed
qed

lemma build_Inr_iff:
  "(\<exists>r. build_adjacency_list md ada db = Inr r) \<longleftrightarrow>
   (\<forall>e \<in> set (streets db). \<not> excluded ada e \<longrightarrow>
      (if md = ''safest'' then danger_score e else Some (distance_m e)) \<noteq> None)"
proof -
  obtain adj0 cs0 where i: "add_intersections (intersections db) (Map.empty, Map.empty) = (adj0, cs0)"
    by (cases "add_intersections (intersections db) (Map.empty, Map.empty)") auto
  have "(\<exists>r. build_adjacency_list md ada db = Inr r) \<longleftrightarrow>
        (\<exists>r. add_streets md ada (streets db) (adj0, 0) = Inr r)"
    by (auto simp: build_adjacency_list_def i split: sum.splits)
  then show ?thesis by (simp only: add_streets_Inr_iff)
qed

lemma build_coords:
  "build_adjacency_list md ada db = Inr (adj, cs, hb) \<Longrightarrow>
   cs = snd (add_intersections (intersections db) (Map.empty, Map.empty))"
  by (auto simp: build_adjacency_list_def split: prod.splits sum.splits)

lemma build_filter_arcs:
  assumes b0: "build_adjacency_list md False db = Inr (adj0, cs0, hb0)"
    and b1: "build_adjacency_list md True db = Inr (adj1, cs1, hb1)"
  shows "set (adj_get adj1 u) \<subseteq> set (adj_get adj0 u)"
proof
  fix a assume a: "a \<in> set (adj_get adj1 u)"
  obtain v w e where [simp]: "a = (v, w, e)" by (cases a) auto
  from a have "(u, v, w, e) \<in> arcs_of adj1" by (simp add: arcs_of_def)
  then have "(u, v, w, e) \<in> arcs_of adj0"
    unfolding build_arcs(1)[OF b0] build_arcs(1)[OF b1] by (auto simp: excluded_def split: if_splits)
  then show "a \<in> set (adj_get adj0 u)" by (simp add: arcs_of_def)
qed

lemma compute_route_solve:
  "build_adjacency_list md ada db = Inr (adj, cs, hb) \<Longrightarrow>
   compute_route db origin destination md ada = solve adj cs hb md ada origin destination"
  by (simp add: compute_route_def)

lemma solve_not_found:
  "adj origin = None \<Longrightarrow> solve adj cs hb md ada origin destination = Some (Inl (NodeNotFound origin))"
  "adj origin \<noteq> None \<Longrightarrow> adj destination = None \<Longrightarrow>
     solve adj cs hb md ada origin destination = Some (Inl (NodeNotFound destination))"
  by (auto simp: solve_def)

text \<open>The route found is a cheapest one, and the computation always ends.\<close>

lemma compute_route_cases:
  assumes b: "build_adjacency_list md ada db = Inr (adj, cs, hb)"
  shows "compute_route db origin destination md ada = Some (Inl (NodeNotFound origin)) \<and> adj origin = None
       \<or> compute_route db origin destination md ada = Some (Inl (NodeNotFound destination))
            \<and> adj origin \<noteq> None \<and> adj destination = None
       \<or> adj origin \<noteq> None \<and> adj destination \<noteq> None \<and>
          ((compute_route db origin destination md ada = Some (Inl (NoPathExists origin destination))
             \<and> (\<forall>c. \<not> walk adj origin destination c))
          \<or> (\<exists>p dmin. route adj p dmin \<and> hd p = origin \<and> last p = destination
             \<and> (\<forall>c. walk adj origin destination c \<longrightarrow> dmin \<le> c)
             \<and> ((\<exists>n \<in> set p. cs n = None
                    \<and> compute_route db origin destination md ada = Some (Inl (KeyError n)))
                \<or> ((\<forall>n \<in> set p. cs n \<noteq> None)
                    \<and> compute_route db origin destination md ada =
                        Some (Inr \<lparr>path = p, coordinates = map (\<lambda>n. the (cs n)) p,
                                   total_cost = py_round dmin 4, mode = md,
                                   ada_required = ada, hazards_bypassed = hb\<rparr>)))))"
proof (cases "adj origin = None")
  case True
  then show ?thesis
    using solve_not_found(1)[of adj origin cs hb md ada destination]
    by (simp add: compute_route_solve[OF b])
next
  case o: False
  show ?thesis
  proof (cases "adj destination = None")
    case True
    then show ?thesis
      using solve_not_found(2)[of adj origin destination cs hb md ada] o
      by (simp add: compute_route_solve[OF b])
  next
    case d: False
    from solve_outcome[OF build_positive_weights[OF b] build_finite_targets[OF b] o d,
        of cs hb md ada]
    show ?thesis unfolding compute_route_solve[OF b] using o d by (simp only: simp_thms)
  qed
qed

text \<open>
  C1. For a snapshot the builder returns, \<open>compute_route\<close> always comes to an end, and
  whenever it returns a result, the returned node list is a path of the snapshot from the
  origin to the destination whose cumulative arc weight \<open>d\<close> is the least over all
  paths between them (the early exit on popping the destination included), and the
  reported total is \<open>d\<close> rounded to 4 decimals: the rounding is applied to the final
  sum only. The same holds of \<open>dijkstra\<close> in app/services, which is this function with
  the filter off.
\<close>

theorem compute_route_optimal:
  assumes b: "build_adjacency_list md ada db = Inr (adj, cs, hb)"
  shows "(\<exists>res. compute_route db origin destination md ada = Some res)
       \<and> (\<forall>r. compute_route db origin destination md ada = Some (Inr r) \<longrightarrow>
            (\<exists>d. route adj (path r) d \<and> hd (path r) = origin \<and> last (path r) = destination
               \<and> (\<forall>p c. route adj p c \<and> hd p = origin \<and> last p = destination \<longrightarrow> d \<le> c)
               \<and> total_cost r = py_round d 4))"
proof (intro conjI allI impI)
  from compute_route_cases[OF b, of origin destination]
  show "\<exists>res. compute_route db origin destination md ada = Some res" by blast
next
  fix r assume r: "compute_route db origin destination md ada = Some (Inr r)"
  from compute_route_cases[OF b, of origin destination] r
  obtain p dmin where p: "route adj p dmin" "hd p = origin" "last p = destination"
    "\<forall>c. walk adj origin destination c \<longrightarrow> dmin \<le> c"
    and res: "compute_route db origin destination md ada =
                        Some (Inr \<lparr>path = p, coordinates = map (\<lambda>n. the (cs n)) p,
                                   total_cost = py_round dmin 4, mode = md,
                                   ada_required = ada, hazards_bypassed = hb\<rparr>)"
    by auto
  from r res have pr: "path r = p" "total_cost r = py_round dmin 4" by auto
  have "\<forall>q c. route adj q c \<and> hd q = origin \<and> last q = destination \<longrightarrow> dmin \<le> c"
  proof (intro allI impI)
    fix q c assume q: "route adj q c \<and> hd q = origin \<and> last q = destination"
    then have "walk adj origin destination c" using route_walk[of adj q c] by auto
    with p(4) show "dmin \<le> c" by blast
  qed
  with p pr show "\<exists>d. route adj (path r) d \<and> hd (path r) = origin \<and> last (path r) = destination
               \<and> (\<forall>p c. route adj p c \<and> hd p = origin \<and> last p = destination \<longrightarrow> d \<le> c)
               \<and> total_cost r = py_round d 4"
    by (intro exI[of _ dmin]) simp
qed

theorem compute_route_optimal_witness:
  "compute_route (scenario_store [] [] [] [] True) ''A'' ''D'' ''safest'' False =
     Some (Inr \<lparr>path = [''A'', ''C'', ''D''], coordinates = [[], [], []], total_cost = 18,
                mode = ''safest'', ada_required = False, hazards_bypassed = 0\<rparr>)
   \<and> (\<exists>d. route (fst (projr (build_adjacency_list ''safest'' False (scenario_store [] [] [] [] True))))
              [''A'', ''C'', ''D''] d
          \<and> (\<forall>p c. route (fst (projr (build_adjacency_list ''safest'' False
                                          (scenario_store [] [] [] [] True)))) p c
                    \<and> hd p = ''A'' \<and> last p = ''D'' \<longrightarrow> d \<le> c)
          \<and> 18 = py_round d 4)"
proof -
  let ?S = "scenario_store [] [] [] [] True"
  let ?B = "build_adjacency_list ''safest'' False ?S"
  let ?R = "\<lparr>path = [''A'', ''C'', ''D''], coordinates = [[], [], []], total_cost = 18,
                mode = ''safest'', ada_required = False, hazards_bypassed = 0\<rparr>"
  have "\<exists>x. ?B = Inr x"
    by (simp add: build_adjacency_list_def scenario_store_def scenario_street_def Let_def)
  then have b: "?B = Inr (fst (projr ?B), fst (snd (projr ?B)), snd (snd (projr ?B)))"
    by auto
  have r: "compute_route ?S ''A'' ''D'' ''safest'' False = Some (Inr ?R)"
    by (simp add: scenario_eval)
  from compute_route_optimal[OF b, of "''A''" "''D''"] r
  have "\<exists>d. route (fst (projr ?B)) (path ?R) d \<and> hd (path ?R) = ''A'' \<and> last (path ?R) = ''D''
               \<and> (\<forall>p c. route (fst (projr ?B)) p c \<and> hd p = ''A'' \<and> last p = ''D'' \<longrightarrow> d \<le> c)
               \<and> total_cost ?R = py_round d 4"
    by blast
  then obtain d where "route (fst (projr ?B)) [''A'', ''C'', ''D''] d"
    "\<forall>p c. route (fst (projr ?B)) p c \<and> hd p = ''A'' \<and> last p = ''D'' \<longrightarrow> d \<le> c"
    "18 = py_round d 4" by auto
  then have "\<exists>d. route (fst (projr ?B)) [''A'', ''C'', ''D''] d
          \<and> (\<forall>p c. route (fst (projr ?B)) p c \<and> hd p = ''A'' \<and> last p = ''D'' \<longrightarrow> d \<le> c)
          \<and> 18 = py_round d 4" by blast
  with r show ?thesis by (rule conjI)
qed

lemma included_street_in_adjacency:
  assumes b: "build_adjacency_list md ada db = Inr (adj, cs, hb)"
    and e: "e \<in> set (streets db)" "\<not> excluded ada e"
  shows "adj (start_intersection_id e) \<noteq> None"
proof -
  from b have "\<exists>r. build_adjacency_list md ada db = Inr r" by blast
  with e obtain w where w: "(if md = ''safest'' then danger_score e else Some (distance_m e)) = Some w"
    unfolding build_Inr_iff by blast
  define u v where "u = start_intersection_id e" and "v = end_intersection_id e"
  from w have "(u, v, max w (1 / 100), e) \<in> edge_arcs md e"
    unfolding edge_arcs_def u_def v_def by (simp split: if_splits)
  with e have "(u, v, max w (1 / 100), e) \<in> arcs_of adj"
    unfolding build_arcs(1)[OF b] by auto
  then have "u \<in> fst ` arcs_of adj" by force
  with build_dom(2)[OF b] have "u \<in> dom adj" by blast
  then show ?thesis unfolding u_def by auto
qed

text \<open>
  C10. Every street that is not filtered out gives its start id an adjacency entry,
  whether or not an intersection document has that id. If the search reaches the
  destination and some node of the reconstructed path has no intersection document, then
  \<open>compute_route\<close> ends with the \<open>KeyError\<close> of the coordinate lookup for such a node:
  not with a result, and not with one of its two \<open>ValueError\<close>s.
\<close>

theorem missing_record_key_error:
  assumes b: "build_adjacency_list md ada db = Inr (adj, cs, hb)"
  shows "(\<forall>e \<in> set (streets db). \<not> excluded ada e \<longrightarrow> adj (start_intersection_id e) \<noteq> None)
       \<and> (adj origin \<noteq> None \<and> adj destination \<noteq> None
            \<and> dijkstra_loop adj destination
                 ([origin \<mapsto> 0], [origin \<mapsto> None], [\<lparr>cost = 0, node_id = origin\<rparr>]) =
                 Some (Inr (dists, prev, pq))
            \<and> prev destination \<noteq> None
            \<and> walk_back prev (Some destination) [] = Some visited
            \<and> (\<exists>n \<in> set visited. n \<notin> iid ` set (intersections db))
          \<longrightarrow> (\<exists>n \<in> set visited. n \<notin> iid ` set (intersections db)
                \<and> compute_route db origin destination md ada = Some (Inl (KeyError n))))"
proof (intro conjI ballI impI)
  fix e assume "e \<in> set (streets db)" "\<not> excluded ada e"
  then show "adj (start_intersection_id e) \<noteq> None"
    by (rule included_street_in_adjacency[OF b])
next
  assume h: "adj origin \<noteq> None \<and> adj destination \<noteq> None
            \<and> dijkstra_loop adj destination
                 ([origin \<mapsto> 0], [origin \<mapsto> None], [\<lparr>cost = 0, node_id = origin\<rparr>]) =
                 Some (Inr (dists, prev, pq))
            \<and> prev destination \<noteq> None
            \<and> walk_back prev (Some destination) [] = Some visited
            \<and> (\<exists>n \<in> set visited. n \<notin> iid ` set (intersections db))"
  then obtain ao ad po where v: "adj origin = Some ao" "adj destination = Some ad"
    "prev destination = Some po" by auto
  have none: "cs n = None \<longleftrightarrow> n \<notin> iid ` set (intersections db)" for n
    using build_dom(1)[OF b] by auto
  from h have "\<exists>n \<in> set (rev visited). cs n = None" by (simp add: none)
  from lookup_coords_missing[OF this] obtain n where
    n: "n \<in> set visited" "cs n = None" "lookup_coords cs (rev visited) = Inl (KeyError n)" by auto
  have "solve adj cs hb md ada origin destination = Some (Inl (KeyError n))"
    using h v n(3) by (simp add: solve_def Let_def)
  with n(1,2) show "\<exists>n \<in> set visited. n \<notin> iid ` set (intersections db)
                \<and> compute_route db origin destination md ada = Some (Inl (KeyError n))"
    unfolding compute_route_solve[OF b] none by blast
qed

theorem missing_record_key_error_witness:
  "fst (projr (build_adjacency_list ''safest'' False dangling_store)) ''A'' \<noteq> None
   \<and> (\<exists>n \<in> set [''B'', ''A'']. n \<notin> iid ` set (intersections dangling_store)
         \<and> compute_route dangling_store ''A'' ''B'' ''safest'' False = Some (Inl (KeyError n)))"
proof -
  let ?B = "build_adjacency_list ''safest'' False dangling_store"
  let ?e = "scenario_street ''A-B'' ''A'' ''B'' 280 5 True"
  have "\<exists>x. ?B = Inr x"
    by (simp add: build_adjacency_list_def dangling_store_def scenario_street_def Let_def)
  then have b: "?B = Inr (fst (projr ?B), fst (snd (projr ?B)), snd (snd (projr ?B)))"
    by auto
  note t = missing_record_key_error[OF b, of "''A''" "''B''"
      "[''A'' \<mapsto> 0, ''B'' \<mapsto> 5]" "[''A'' \<mapsto> None, ''B'' \<mapsto> Some ''A'']" "[]" "[''B'', ''A'']"]
  have e: "?e \<in> set (streets dangling_store)" "\<not> excluded False ?e"
    "start_intersection_id ?e = ''A''"
    by (simp_all add: dangling_store_def excluded_def scenario_street_def)
  have a: "fst (projr ?B) ''A'' \<noteq> None" using t e by metis
  have bB: "fst (projr ?B) ''B'' \<noteq> None"
    by (simp add: build_adjacency_list_def dangling_store_def scenario_street_def Let_def
        adj_append_def adj_get_def)
  have run: "dijkstra_loop (fst (projr ?B)) ''B''
               ([''A'' \<mapsto> 0], [''A'' \<mapsto> None], [\<lparr>cost = 0, node_id = ''A''\<rparr>]) =
             Some (Inr ([''A'' \<mapsto> 0, ''B'' \<mapsto> 5], [''A'' \<mapsto> None, ''B'' \<mapsto> Some ''A''], []))"
    by (simp add: dangling_store_def scenario_eval)
  have wb: "walk_back [''A'' \<mapsto> None, ''B'' \<mapsto> Some ''A''] (Some ''B'') [] = Some [''B'', ''A'']"
    by (simp add: walk_back.simps)
  have p: "[''A'' \<mapsto> None, ''B'' \<mapsto> Some ''A''] ''B'' \<noteq> None" by simp
  have m: "\<exists>n \<in> set [''B'', ''A'']. n \<notin> iid ` set (intersections dangling_store)"
    by (rule bexI[of _ "''A''"]) (simp_all add: dangling_store_def)
  from t a bB run wb p m
  have "\<exists>n \<in> set [''B'', ''A'']. n \<notin> iid ` set (intersections dangling_store)
         \<and> compute_route dangling_store ''A'' ''B'' ''safest'' False = Some (Inl (KeyError n))"
    by blast
  with a show ?thesis by (rule conjI)
qed

lemma search_same_node:
  "dijkstra_loop adj origin ([origin \<mapsto> 0], [origin \<mapsto> None], [\<lparr>cost = 0, node_id = origin\<rparr>]) =
     Some (Inr ([origin \<mapsto> 0], [origin \<mapsto> None], []))"
  by (subst dijkstra_loop.simps) (simp add: heappop_def Let_def)

lemma walk_back_origin: "walk_back [origin \<mapsto> None] (Some origin) [] = Some [origin]"
  by (simp add: walk_back_Some walk_back_None)

lemma py_round_zero: "py_round 0 n = 0"
  by (simp add: py_round_def round_half_even_def)

lemma solve_same_node:
  assumes "adj origin \<noteq> None"
  shows "solve adj cs hb md ada origin origin =
           (case cs origin of
              Some c \<Rightarrow> Some (Inr \<lparr>path = [origin], coordinates = [c], total_cost = 0, mode = md,
                                   ada_required = ada, hazards_bypassed = hb\<rparr>)
            | None \<Rightarrow> Some (Inl (KeyError origin)))"
proof -
  from assms obtain ao where "adj origin = Some ao" by auto
  then show ?thesis
    by (simp add: solve_def search_same_node walk_back_origin py_round_zero split: option.splits)
qed

text \<open>
  C9. With the destination equal to an origin that has an adjacency entry, the search
  stops at the first pop and the reconstructed path is the origin alone, for every
  adjacency. \<open>compute_route\<close> then returns that path with total cost 0 when the origin
  has an intersection document, and ends with \<open>KeyError\<close> when it has none, as for the
  origin A of the store whose only street is A-B.
\<close>

theorem same_origin_destination:
  "(build_adjacency_list md ada db = Inr (adj, cs, hb) \<and> adj origin \<noteq> None \<longrightarrow>
      dijkstra_loop adj origin ([origin \<mapsto> 0], [origin \<mapsto> None], [\<lparr>cost = 0, node_id = origin\<rparr>]) =
        Some (Inr ([origin \<mapsto> 0], [origin \<mapsto> None], []))
      \<and> walk_back [origin \<mapsto> None] (Some origin) [] = Some [origin]
      \<and> (case cs origin of
           Some c \<Rightarrow>
             compute_route db origin origin md ada =
               Some (Inr \<lparr>path = [origin], coordinates = [c], total_cost = 0, mode = md,
                          ada_required = ada, hazards_bypassed = hb\<rparr>)
         | None \<Rightarrow> compute_route db origin origin md ada = Some (Inl (KeyError origin))))
   \<and> compute_route dangling_store ''A'' ''A'' ''safest'' False = Some (Inl (KeyError ''A''))"
proof (intro conjI impI)
  show "compute_route dangling_store ''A'' ''A'' ''safest'' False = Some (Inl (KeyError ''A''))"
    by (simp add: dangling_store_def scenario_eval)
next
  assume h: "build_adjacency_list md ada db = Inr (adj, cs, hb) \<and> adj origin \<noteq> None"
  then have b: "build_adjacency_list md ada db = Inr (adj, cs, hb)" and o: "adj origin \<noteq> None"
    by auto
  show "case cs origin of
           Some c \<Rightarrow>
             compute_route db origin origin md ada =
               Some (Inr \<lparr>path = [origin], coordinates = [c], total_cost = 0, mode = md,
                          ada_required = ada, hazards_bypassed = hb\<rparr>)
         | None \<Rightarrow> compute_route db origin origin md ada = Some (Inl (KeyError origin))"
    unfolding compute_route_solve[OF b]
    using solve_same_node[of adj origin cs hb md ada] o by (simp split: option.splits)
qed (rule search_same_node, rule walk_back_origin)

theorem same_origin_destination_witness:
  "compute_route (scenario_store [0, 0] [1, 0] [0, 1] [1, 1] True) ''A'' ''A'' ''safest'' False =
     Some (Inr \<lparr>path = [''A''], coordinates = [[0, 0]], total_cost = 0, mode = ''safest'',
                ada_required = False, hazards_bypassed = 0\<rparr>)"
proof -
  let ?S = "scenario_store [0, 0] [1, 0] [0, 1] [1, 1] True"
  let ?B = "build_adjacency_list ''safest'' False ?S"
  have "\<exists>x. ?B = Inr x"
    by (simp add: build_adjacency_list_def scenario_store_def scenario_street_def Let_def)
  then have b: "?B = Inr (fst (projr ?B), fst (snd (projr ?B)), snd (snd (projr ?B)))"
    by auto
  have a: "fst (projr ?B) ''A'' \<noteq> None"
    by (simp add: build_adjacency_list_def scenario_store_def scenario_street_def Let_def
        adj_append_def adj_get_def)
  have c: "fst (snd (projr ?B)) ''A'' = Some [0, 0]"
    by (simp add: build_adjacency_list_def scenario_store_def scenario_street_def Let_def)
  have hb: "snd (snd (projr ?B)) = 0"
    by (simp add: build_adjacency_list_def scenario_store_def scenario_street_def Let_def)
  from same_origin_destination[of "''safest''" False ?S "fst (projr ?B)" "fst (snd (projr ?B))"
      "snd (snd (projr ?B))" "''A''"] b a
  have "case fst (snd (projr ?B)) ''A'' of
           Some c \<Rightarrow>
             compute_route ?S ''A'' ''A'' ''safest'' False =
               Some (Inr \<lparr>path = [''A''], coordinates = [c], total_cost = 0, mode = ''safest'',
                          ada_required = False, hazards_bypassed = snd (snd (projr ?B))\<rparr>)
         | None \<Rightarrow> compute_route ?S ''A'' ''A'' ''safest'' False = Some (Inl (KeyError ''A''))"
    by blast
  then show ?thesis unfolding c hb by simp
qed

text \<open>
  C4. An origin that is neither the id of an intersection document nor the source of an
  arc of the snapshot is answered with \<open>NodeNotFound\<close>, and so is every request on an
  empty store. An origin that is only a street endpoint passes the membership test: on
  the store with the two streets A-B and C-D the request from A to C ends with
  \<open>NoPathExists\<close>, and on the store with the single street A-B the request from A to B
  ends with \<open>KeyError\<close>.
\<close>

theorem unknown_origin_not_found:
  "(build_adjacency_list md ada db = Inr (adj, cs, hb)
      \<and> origin \<notin> iid ` set (intersections db) \<and> origin \<notin> fst ` arcs_of adj \<longrightarrow>
      compute_route db origin destination md ada = Some (Inl (NodeNotFound origin)))
   \<and> compute_route \<lparr>intersections = [], streets = []\<rparr> origin destination md ada =
       Some (Inl (NodeNotFound origin))
   \<and> compute_route two_islands_store ''A'' ''C'' ''safest'' False =
       Some (Inl (NoPathExists ''A'' ''C''))
   \<and> compute_route dangling_store ''A'' ''B'' ''safest'' False = Some (Inl (KeyError ''A''))"
proof (intro conjI impI)
  assume h: "build_adjacency_list md ada db = Inr (adj, cs, hb)
      \<and> origin \<notin> iid ` set (intersections db) \<and> origin \<notin> fst ` arcs_of adj"
  then have b: "build_adjacency_list md ada db = Inr (adj, cs, hb)" by simp
  from h build_dom(2)[OF b] have "origin \<notin> dom adj" by simp
  then have "adj origin = None" by auto
  then show "compute_route db origin destination md ada = Some (Inl (NodeNotFound origin))"
    unfolding compute_route_solve[OF b] by (simp add: solve_def)
next
  show "compute_route \<lparr>intersections = [], streets = []\<rparr> origin destination md ada =
       Some (Inl (NodeNotFound origin))"
    by (simp add: compute_route_def build_adjacency_list_def solve_def)
  show "compute_route two_islands_store ''A'' ''C'' ''safest'' False =
       Some (Inl (NoPathExists ''A'' ''C''))"
    by (simp add: two_islands_store_def scenario_eval)
  show "compute_route dangling_store ''A'' ''B'' ''safest'' False = Some (Inl (KeyError ''A''))"
    by (simp add: dangling_store_def scenario_eval)
qed

theorem unknown_origin_not_found_witness:
  "compute_route (scenario_store [] [] [] [] True) ''Z'' ''D'' ''safest'' False =
     Some (Inl (NodeNotFound ''Z''))"
proof -
  let ?S = "scenario_store [] [] [] [] True"
  let ?B = "build_adjacency_list ''safest'' False ?S"
  have "\<exists>x. ?B = Inr x"
    by (simp add: build_adjacency_list_def scenario_store_def scenario_street_def Let_def)
  then have b: "?B = Inr (fst (projr ?B), fst (snd (projr ?B)), snd (snd (projr ?B)))"
    by auto
  have n: "''Z'' \<notin> iid ` set (intersections ?S)" by (simp add: scenario_store_def)
  have "''Z'' \<notin> dom (fst (projr ?B))"
    by (simp add: build_adjacency_list_def scenario_store_def scenario_street_def Let_def
        adj_append_def adj_get_def dom_def)
  with build_dom(2)[OF b] have a: "''Z'' \<notin> fst ` arcs_of (fst (projr ?B))" by blast
  from unknown_origin_not_found[of "''safest''" False ?S "fst (projr ?B)" "fst (snd (projr ?B))"
      "snd (snd (projr ?B))" "''Z''" "''D''"] b n a
  show ?thesis by blast
qed

lemma route_nodes:
  "route adj p c \<Longrightarrow> n \<in> set p \<Longrightarrow> n = hd p \<or> n \<in> arc_targets adj"
proof (induction rule: route.induct)
  case (route_single u)
  then show ?case by simp
next
  case (route_arc p u c v w e)
  have hd: "hd (p @ [u, v]) = hd (p @ [u])" by (cases p) auto
  from route_arc.prems have "n \<in> set (p @ [u]) \<or> n = v" by auto
  then show ?case
  proof
    assume "n \<in> set (p @ [u])"
    from route_arc.IH[OF this] hd show ?thesis by simp
  next
    assume "n = v"
    with route_arc.hyps(2) have "n \<in> arc_targets adj" unfolding arc_targets_def by blast
    then show ?thesis ..
  qed
qed

lemma build_targets_endpoints:
  assumes b: "build_adjacency_list md ada db = Inr (adj, cs, hb)" and n: "n \<in> arc_targets adj"
  shows "\<exists>e \<in> set (streets db). n = start_intersection_id e \<or> n = end_intersection_id e"
proof -
  from n obtain u w e where "(u, n, w, e) \<in> arcs_of adj"
    unfolding arc_targets_def arcs_of_def by auto
  then obtain e' where e': "e' \<in> set (streets db)" "(u, n, w, e) \<in> edge_arcs md e'"
    unfolding build_arcs(1)[OF b] by (auto split: if_splits)
  from e'(2) have "n = start_intersection_id e' \<or> n = end_intersection_id e'"
    unfolding edge_arcs_def by (auto split: option.splits if_splits)
  with e'(1) show ?thesis by blast
qed

lemma filter_keeps_build:
  assumes "build_adjacency_list md False db = Inr (adj0, cs0, hb0)"
  shows "\<exists>adj1 hb1. build_adjacency_list md True db = Inr (adj1, cs0, hb1)"
proof -
  from assms have "\<exists>r. build_adjacency_list md False db = Inr r" by blast
  then have "\<exists>r. build_adjacency_list md True db = Inr r"
    unfolding build_Inr_iff by (auto simp: excluded_def)
  then obtain adj1 cs1 hb1 where b1: "build_adjacency_list md True db = Inr (adj1, cs1, hb1)"
    by (metis prod_cases3)
  from build_coords[OF b1] build_coords[OF assms] have "cs1 = cs0" by simp
  with b1 show ?thesis by blast
qed

lemma filter_cost_outcomes:
  assumes off: "compute_route db origin destination md False = Some (Inr r0)"
  shows "(\<exists>r1. compute_route db origin destination md True = Some (Inr r1)
               \<and> total_cost r0 \<le> total_cost r1)
       \<or> compute_route db origin destination md True = Some (Inl (NoPathExists origin destination))
       \<or> (\<exists>n e. e \<in> set (streets db)
               \<and> (n = start_intersection_id e \<or> n = end_intersection_id e)
               \<and> n \<notin> iid ` set (intersections db)
               \<and> compute_route db origin destination md True = Some (Inl (KeyError n)))"
proof -
  from off obtain adj0 cs hb0 where b0: "build_adjacency_list md False db = Inr (adj0, cs, hb0)"
    by (auto simp: compute_route_def split: sum.splits)
  from filter_keeps_build[OF b0] obtain adj1 hb1 where
    b1: "build_adjacency_list md True db = Inr (adj1, cs, hb1)" by blast
  have none: "cs n = None \<longleftrightarrow> n \<notin> iid ` set (intersections db)" for n
    using build_dom(1)[OF b0] by auto
  from compute_route_cases[OF b0, of origin destination] off
  obtain p0 d0 where p0: "route adj0 p0 d0" "hd p0 = origin" "last p0 = destination"
    "\<forall>c. walk adj0 origin destination c \<longrightarrow> d0 \<le> c" "\<forall>n \<in> set p0. cs n \<noteq> None"
    and res0: "compute_route db origin destination md False =
                        Some (Inr \<lparr>path = p0, coordinates = map (\<lambda>n. the (cs n)) p0,
                                   total_cost = py_round d0 4, mode = md,
                                   ada_required = False, hazards_bypassed = hb0\<rparr>)"
    by auto
  from off res0 have t0: "total_cost r0 = py_round d0 4" by auto
  have ne: "p0 \<noteq> []" by (rule route_nonempty[OF p0(1)])
  then have "origin \<in> set p0" "destination \<in> set p0" using p0(2,3) by auto
  with p0(5) have rec: "cs origin \<noteq> None" "cs destination \<noteq> None" by auto
  then have "origin \<in> dom adj1" "destination \<in> dom adj1"
    using build_dom(2)[OF b1] none by auto
  then have in1: "adj1 origin \<noteq> None" "adj1 destination \<noteq> None" by auto
  from compute_route_cases[OF b1, of origin destination] in1
  consider (nopath) "compute_route db origin destination md True =
                       Some (Inl (NoPathExists origin destination))"
    | (path) p1 d1 where "route adj1 p1 d1" "hd p1 = origin" "last p1 = destination"
        "(\<exists>n \<in> set p1. cs n = None
              \<and> compute_route db origin destination md True = Some (Inl (KeyError n)))
         \<or> compute_route db origin destination md True =
               Some (Inr \<lparr>path = p1, coordinates = map (\<lambda>n. the (cs n)) p1,
                          total_cost = py_round d1 4, mode = md,
                          ada_required = True, hazards_bypassed = hb1\<rparr>)"
    by blast
  then show ?thesis
  proof cases
    case nopath
    then show ?thesis by blast
  next
    case path
    from path(4) show ?thesis
    proof
      assume "\<exists>n \<in> set p1. cs n = None
              \<and> compute_route db origin destination md True = Some (Inl (KeyError n))"
      then obtain n where n: "n \<in> set p1" "cs n = None"
        "compute_route db origin destination md True = Some (Inl (KeyError n))" by blast
      from route_nodes[OF path(1) n(1)] path(2) n(2) rec(1) have "n \<in> arc_targets adj1" by auto
      from build_targets_endpoints[OF b1 this] obtain e where
        "e \<in> set (streets db)" "n = start_intersection_id e \<or> n = end_intersection_id e" by blast
      with n(2,3) none show ?thesis by blast
    next
      assume res1: "compute_route db origin destination md True =
               Some (Inr \<lparr>path = p1, coordinates = map (\<lambda>n. the (cs n)) p1,
                          total_cost = py_round d1 4, mode = md,
                          ada_required = True, hazards_bypassed = hb1\<rparr>)"
      from route_walk[OF path(1)] path(2,3) have "walk adj1 origin destination d1" by simp
      then have "walk adj0 origin destination d1"
        by (rule walk_mono[OF build_filter_arcs[OF b0 b1]])
      with p0(4) have "d0 \<le> d1" by blast
      then have "py_round d0 4 \<le> py_round d1 4" by (rule py_round_mono)
      with res1 t0 show ?thesis by simp
    qed
  qed
qed

text \<open>
  C6. When the route without the accessibility filter is found, the request with the
  filter on either returns a total cost that is not smaller, or ends with
  \<open>NoPathExists\<close>, or ends with the \<open>KeyError\<close> of a street endpoint that has no
  intersection document. The third case occurs: on the store with intersections A and D,
  an inaccessible street A-D and accessible streets A-X and X-D, the request from A to D
  costs 1 with the filter off and ends with \<open>KeyError\<close> for X with the filter on.
\<close>

theorem ada_cost_monotone:
  "(compute_route db origin destination md False = Some (Inr r0) \<longrightarrow>
      (\<exists>r1. compute_route db origin destination md True = Some (Inr r1)
               \<and> total_cost r0 \<le> total_cost r1)
       \<or> compute_route db origin destination md True = Some (Inl (NoPathExists origin destination))
       \<or> (\<exists>n e. e \<in> set (streets db)
               \<and> (n = start_intersection_id e \<or> n = end_intersection_id e)
               \<and> n \<notin> iid ` set (intersections db)
               \<and> compute_route db origin destination md True = Some (Inl (KeyError n))))
   \<and> compute_route detour_store ''A'' ''D'' ''safest'' False =
       Some (Inr \<lparr>path = [''A'', ''D''], coordinates = [[0, 0], [1, 1]], total_cost = 1,
                  mode = ''safest'', ada_required = False, hazards_bypassed = 0\<rparr>)
   \<and> compute_route detour_store ''A'' ''D'' ''safest'' True = Some (Inl (KeyError ''X''))"
proof (intro conjI impI)
  assume "compute_route db origin destination md False = Some (Inr r0)"
  then show "(\<exists>r1. compute_route db origin destination md True = Some (Inr r1)
               \<and> total_cost r0 \<le> total_cost r1)
       \<or> compute_route db origin destination md True = Some (Inl (NoPathExists origin destination))
       \<or> (\<exists>n e. e \<in> set (streets db)
               \<and> (n = start_intersection_id e \<or> n = end_intersection_id e)
               \<and> n \<notin> iid ` set (intersections db)
               \<and> compute_route db origin destination md True = Some (Inl (KeyError n)))"
    by (rule filter_cost_outcomes)
next
  show "compute_route detour_store ''A'' ''D'' ''safest'' False =
       Some (Inr \<lparr>path = [''A'', ''D''], coordinates = [[0, 0], [1, 1]], total_cost = 1,
                  mode = ''safest'', ada_required = False, hazards_bypassed = 0\<rparr>)"
    by (simp add: detour_store_def scenario_eval)
  show "compute_route detour_store ''A'' ''D'' ''safest'' True = Some (Inl (KeyError ''X''))"
    by (simp add: detour_store_def scenario_eval)
qed

theorem ada_cost_monotone_witness:
  "compute_route (scenario_store [] [] [] [] False) ''A'' ''D'' ''shortest'' False =
     Some (Inr \<lparr>path = [''A'', ''C'', ''D''], coordinates = [[], [], []], total_cost = 550,
                mode = ''shortest'', ada_required = False, hazards_bypassed = 0\<rparr>)
   \<and> compute_route (scenario_store [] [] [] [] False) ''A'' ''D'' ''shortest'' True =
     Some (Inr \<lparr>path = [''A'', ''C'', ''D''], coordinates = [[], [], []], total_cost = 550,
                mode = ''shortest'', ada_required = True, hazards_bypassed = 1\<rparr>)
   \<and> ((\<exists>r1. compute_route (scenario_store [] [] [] [] False) ''A'' ''D'' ''shortest'' True =
              Some (Inr r1) \<and> (550::real) \<le> total_cost r1)
       \<or> compute_route (scenario_store [] [] [] [] False) ''A'' ''D'' ''shortest'' True =
            Some (Inl (NoPathExists ''A'' ''D''))
       \<or> (\<exists>n e. e \<in> set (streets (scenario_store [] [] [] [] False))
               \<and> (n = start_intersection_id e \<or> n = end_intersection_id e)
               \<and> n \<notin> iid ` set (intersections (scenario_store [] [] [] [] False))
               \<and> compute_route (scenario_store [] [] [] [] False) ''A'' ''D'' ''shortest'' True =
                   Some (Inl (KeyError n))))"
proof -
  let ?S = "scenario_store [] [] [] [] False"
  let ?R0 = "\<lparr>path = [''A'', ''C'', ''D''], coordinates = [[], [], []], total_cost = 550,
                mode = ''shortest'', ada_required = False, hazards_bypassed = 0\<rparr>"
  have off: "compute_route ?S ''A'' ''D'' ''shortest'' False = Some (Inr ?R0)"
    by (simp add: scenario_eval)
  have on: "compute_route ?S ''A'' ''D'' ''shortest'' True =
     Some (Inr \<lparr>path = [''A'', ''C'', ''D''], coordinates = [[], [], []], total_cost = 550,
                mode = ''shortest'', ada_required = True, hazards_bypassed = 1\<rparr>)"
    by (simp add: scenario_eval)
  from ada_cost_monotone[of ?S "''A''" "''D''" "''shortest''" ?R0] off
  have "(\<exists>r1. compute_route ?S ''A'' ''D'' ''shortest'' True = Some (Inr r1)
               \<and> total_cost ?R0 \<le> total_cost r1)
       \<or> compute_route ?S ''A'' ''D'' ''shortest'' True = Some (Inl (NoPathExists ''A'' ''D''))
       \<or> (\<exists>n e. e \<in> set (streets ?S)
               \<and> (n = start_intersection_id e \<or> n = end_intersection_id e)
               \<and> n \<notin> iid ` set (intersections ?S)
               \<and> compute_route ?S ''A'' ''D'' ''shortest'' True = Some (Inl (KeyError n)))"
    by blast
  then have "(\<exists>r1. compute_route ?S ''A'' ''D'' ''shortest'' True = Some (Inr r1)
               \<and> (550::real) \<le> total_cost r1)
       \<or> compute_route ?S ''A'' ''D'' ''shortest'' True = Some (Inl (NoPathExists ''A'' ''D''))
       \<or> (\<exists>n e. e \<in> set (streets ?S)
               \<and> (n = start_intersection_id e \<or> n = end_intersection_id e)
               \<and> n \<notin> iid ` set (intersections ?S)
               \<and> compute_route ?S ''A'' ''D'' ''shortest'' True = Some (Inl (KeyError n)))"
    by (simp only: route_result.simps)
  with off on show ?thesis by (intro conjI)
qed

end
